theory Spec2Isabelle
  imports Main "HOL-Library.Sublist"
begin

section \<open>JavaScript strings\<close>

text \<open>
  A JavaScript string is a sequence of UTF-16 code units. The functions of
  \<^verbatim>\<open>taskpane.js\<close> only compare code units, so a code unit is modelled by its
  numeric value; real strings use the values below 65536. \<open>js\<close> turns an
  ASCII literal into such a string.
\<close>

type_synonym jschar = nat
type_synonym jsstring = "jschar list"

definition js :: "string \<Rightarrow> jsstring" where
  "js s = map of_char s"

text \<open>
  The class \<^verbatim>\<open>\s\<close> of a regular expression, which is also what
  \<^verbatim>\<open>String.prototype.trim\<close> removes: WhiteSpace and LineTerminator of ECMAScript
  (TAB, LF, VT, FF, CR, SP, NBSP, U+1680, U+2000 to U+200A, U+2028, U+2029,
  U+202F, U+205F, U+3000, U+FEFF).
\<close>

definition isSpace :: "jschar \<Rightarrow> bool" where
  "isSpace c \<longleftrightarrow>
     (9 \<le> c \<and> c \<le> 13) \<or> c = 32 \<or> c = 160 \<or> c = 5760 \<or> (8192 \<le> c \<and> c \<le> 8202) \<or>
     c = 8232 \<or> c = 8233 \<or> c = 8239 \<or> c = 8287 \<or> c = 12288 \<or> c = 65279"

text \<open>\<^verbatim>\<open>\d\<close> is \<^verbatim>\<open>[0-9]\<close> and \<^verbatim>\<open>\w\<close> is \<^verbatim>\<open>[A-Za-z0-9_]\<close>.\<close>

definition isDigit :: "jschar \<Rightarrow> bool" where
  "isDigit c \<longleftrightarrow> 48 \<le> c \<and> c \<le> 57"

definition isWordChar :: "jschar \<Rightarrow> bool" where
  "isWordChar c \<longleftrightarrow> isDigit c \<or> (65 \<le> c \<and> c \<le> 90) \<or> (97 \<le> c \<and> c \<le> 122) \<or> c = 95"

text \<open>
  The assertion \<^verbatim>\<open>\b\<close> between the code unit before the position and the one
  after it (\<open>None\<close> at either end of the string): exactly one side is a word
  character.
\<close>

definition isWordOpt :: "jschar option \<Rightarrow> bool" where
  "isWordOpt x = (case x of None \<Rightarrow> False | Some c \<Rightarrow> isWordChar c)"

definition atWordBoundary :: "jschar option \<Rightarrow> jschar option \<Rightarrow> bool" where
  "atWordBoundary l r \<longleftrightarrow> isWordOpt l \<noteq> isWordOpt r"

definition headOpt :: "jsstring \<Rightarrow> jschar option" where
  "headOpt s = (case s of [] \<Rightarrow> None | c # _ \<Rightarrow> Some c)"

text \<open>
  A pattern character \<open>p\<close> against an input code unit \<open>c\<close> under the flag
  \<^verbatim>\<open>i\<close> (without \<^verbatim>\<open>u\<close>): both are compared after \<^verbatim>\<open>toUpperCase\<close>, except that
  a non-ASCII code unit is never folded onto an ASCII one. The pattern
  characters of this program are ASCII and U+00E8 (e grave, whose capital
  is U+00C8); for these the input code units that match are the ones below.
\<close>

definition ciMatch :: "jschar \<Rightarrow> jschar \<Rightarrow> bool" where
  "ciMatch p c \<longleftrightarrow>
     c = p \<or> (97 \<le> p \<and> p \<le> 122 \<and> c + 32 = p) \<or> (65 \<le> p \<and> p \<le> 90 \<and> c = p + 32) \<or>
     (p = 232 \<and> c = 200) \<or> (p = 200 \<and> c = 232)"

fun ciPrefix :: "jsstring \<Rightarrow> jsstring \<Rightarrow> bool" where
  "ciPrefix [] s = True"
| "ciPrefix (p # ps) [] = False"
| "ciPrefix (p # ps) (c # cs) = (ciMatch p c \<and> ciPrefix ps cs)"

definition ciEq :: "jsstring \<Rightarrow> jsstring \<Rightarrow> bool" where
  "ciEq p s \<longleftrightarrow> length s = length p \<and> ciPrefix p s"

text \<open>\<^verbatim>\<open>s.trim()\<close>.\<close>

definition trim :: "jsstring \<Rightarrow> jsstring" where
  "trim s = rev (dropWhile isSpace (rev (dropWhile isSpace s)))"

text \<open>
  \<^verbatim>\<open>s.split(sep)\<close> for a separator of one code unit: the pieces between the
  separators, one piece more than there are separators. A code unit that is
  not the separator goes in front of the first piece of the rest (the rest
  always has a first piece).
\<close>

fun splitOn :: "jschar \<Rightarrow> jsstring \<Rightarrow> jsstring list" where
  "splitOn sep [] = [[]]"
| "splitOn sep (c # cs) =
     (if c = sep then [] # splitOn sep cs
      else (case splitOn sep cs of
              [] \<Rightarrow> [[c]]
            | p # ps \<Rightarrow> (c # p) # ps))"

text \<open>
  \<^verbatim>\<open>s.split(/\s+/)\<close>: the pieces between the maximal runs of white space; a
  run at either end leaves an empty piece there.
\<close>

function splitSpaces :: "jsstring \<Rightarrow> jsstring list" where
  "splitSpaces [] = [[]]"
| "splitSpaces (c # cs) =
     (if isSpace c then [] # splitSpaces (dropWhile isSpace cs)
      else (case splitSpaces cs of
              [] \<Rightarrow> [[c]]
            | p # ps \<Rightarrow> (c # p) # ps))"
  by pat_completeness auto
termination
  by (relation "measure length") (auto intro: le_imp_less_Suc length_dropWhile_le)

text \<open>\<^verbatim>\<open>l.split(/\s+/).filter(Boolean)\<close>: the empty pieces are dropped.\<close>

definition tokens :: "jsstring \<Rightarrow> jsstring list" where
  "tokens l = filter (\<lambda>t. t \<noteq> []) (splitSpaces l)"

text \<open>\<^verbatim>\<open>parts.join(sep)\<close>.\<close>

fun joinWith :: "jsstring \<Rightarrow> jsstring list \<Rightarrow> jsstring" where
  "joinWith sep [] = []"
| "joinWith sep [x] = x"
| "joinWith sep (x # y # ys) = x @ sep @ joinWith sep (y # ys)"

text \<open>
  \<^verbatim>\<open>xs.slice(start, end)\<close> with JavaScript's relative indices: a negative
  index counts from the end, and both are clamped to the array.
\<close>

definition relIndex :: "nat \<Rightarrow> int \<Rightarrow> nat" where
  "relIndex len i = (if i < 0 then nat (max (int len + i) 0) else min (nat i) len)"

definition slice :: "'a list \<Rightarrow> int \<Rightarrow> int \<Rightarrow> 'a list" where
  "slice xs start end =
     (let k = relIndex (length xs) start; e = relIndex (length xs) end
      in take (e - k) (drop k xs))"

definition sliceFrom :: "'a list \<Rightarrow> int \<Rightarrow> 'a list" where
  "sliceFrom xs start = slice xs start (int (length xs))"

text \<open>\<^verbatim>\<open>xs.findIndex(P)\<close>: the first index whose element satisfies \<open>P\<close>, or -1.\<close>

fun findIndexFrom :: "('a \<Rightarrow> bool) \<Rightarrow> int \<Rightarrow> 'a list \<Rightarrow> int" where
  "findIndexFrom P i [] = -1"
| "findIndexFrom P i (x # xs) = (if P x then i else findIndexFrom P (i + 1) xs)"

definition findIndex :: "('a \<Rightarrow> bool) \<Rightarrow> 'a list \<Rightarrow> int" where
  "findIndex P xs = findIndexFrom P 0 xs"

section \<open>htmlToText\<close>

text \<open>
  \<^verbatim>\<open>s.replace(/pat/g, rep)\<close> for a pattern that is a literal string: scanning
  from the left, each occurrence is replaced and the scan goes on after it.
\<close>

fun replaceAll :: "jsstring \<Rightarrow> jsstring \<Rightarrow> jsstring \<Rightarrow> jsstring" where
  "replaceAll pat rep [] = []"
| "replaceAll pat rep (c # cs) =
     (if pat \<noteq> [] \<and> prefix pat (c # cs)
      then rep @ replaceAll pat rep (drop (length pat) (c # cs))
      else c # replaceAll pat rep cs)"

text \<open>
  The lazy \<^verbatim>\<open>[\s\S]*?\<close> followed by the closing tag: the first occurrence of
  the closing tag, compared without case, at or after the current position.
  The result is what follows that occurrence.
\<close>

fun findClose :: "jsstring \<Rightarrow> jsstring \<Rightarrow> jsstring option" where
  "findClose cl [] = (if cl = [] then Some [] else None)"
| "findClose cl (c # cs) =
     (if ciPrefix cl (c # cs) then Some (drop (length cl) (c # cs)) else findClose cl cs)"

text \<open>
  One attempt of \<^verbatim>\<open>/<style[\s\S]*?<\/style>/i\<close> (or of the same for
  \<^verbatim>\<open>script\<close>) at the head of \<open>s\<close>: the opening text, then anything up to the
  first closing tag. The result is the text after the match.
\<close>

definition matchBlock :: "jsstring \<Rightarrow> jsstring \<Rightarrow> jsstring \<Rightarrow> jsstring option" where
  "matchBlock opn cl s =
     (if ciPrefix opn s then findClose cl (drop (length opn) s) else None)"

text \<open>
  \<^verbatim>\<open>s.replace(/<style[\s\S]*?<\/style>/gi, "")\<close>: at each position the
  expression is tried; a match is deleted and the scan goes on after it,
  otherwise the code unit is kept and the scan moves one position on. The
  opening text of the program's two expressions is never empty; the test
  on it only makes the recursion total.
\<close>

function stripBlocks :: "jsstring \<Rightarrow> jsstring \<Rightarrow> jsstring \<Rightarrow> jsstring" where
  "stripBlocks opn cl [] = []"
| "stripBlocks opn cl (c # cs) =
     (if opn = [] then c # cs
      else (case matchBlock opn cl (c # cs) of
              Some r \<Rightarrow> stripBlocks opn cl r
            | None \<Rightarrow> c # stripBlocks opn cl cs))"
  by pat_completeness auto
termination
proof (relation "measure (\<lambda>(opn, cl, s). length s)")
  fix opn cl :: jsstring and c :: jschar and cs r :: jsstring
  assume opn: "opn \<noteq> []" and m: "matchBlock opn cl (c # cs) = Some r"
  have shorter: "findClose cl s = Some t \<Longrightarrow> length t \<le> length s" for s t
    by (induction s) (auto split: if_splits)
  from m have "findClose cl (drop (length opn) (c # cs)) = Some r"
    by (auto simp: matchBlock_def split: if_splits)
  then have "length r \<le> length (drop (length opn) (c # cs))"
    by (rule shorter)
  also from opn have "\<dots> < length (c # cs)"
    by simp
  finally show "((opn, cl, r), (opn, cl, c # cs)) \<in> measure (\<lambda>(opn, cl, s). length s)"
    by simp
qed simp_all

text \<open>
  \<^verbatim>\<open>s.replace(/<[^>]+>/g, "\n")\<close>: a \<^verbatim>\<open><\<close>, then the longest run of code units
  other than \<^verbatim>\<open>>\<close>, which must not be empty, then a \<^verbatim>\<open>>\<close>. Giving
  back part of the run cannot help, since the run holds no \<^verbatim>\<open>>\<close>.
\<close>

function replaceTags :: "jsstring \<Rightarrow> jsstring" where
  "replaceTags [] = []"
| "replaceTags (c # cs) =
     (if c = 60 \<and> takeWhile (\<lambda>x. x \<noteq> 62) cs \<noteq> [] \<and> dropWhile (\<lambda>x. x \<noteq> 62) cs \<noteq> []
      then 10 # replaceTags (tl (dropWhile (\<lambda>x. x \<noteq> 62) cs))
      else c # replaceTags cs)"
  by pat_completeness auto
termination
proof (relation "measure length")
  fix c :: jschar and cs :: jsstring
  have "length (tl (dropWhile (\<lambda>x. x \<noteq> 62) cs)) \<le> length cs"
    using length_dropWhile_le [of "\<lambda>x. x \<noteq> 62" cs] by simp
  then show "(tl (dropWhile (\<lambda>x. x \<noteq> 62) cs), c # cs) \<in> measure length"
    by simp
qed simp_all

text \<open>\<^verbatim>\<open>s.replace(/\n{2,}/g, "\n")\<close>: a run of two or more line feeds becomes one.\<close>

function collapseNewlines :: "jsstring \<Rightarrow> jsstring" where
  "collapseNewlines [] = []"
| "collapseNewlines [c] = [c]"
| "collapseNewlines (c # d # cs) =
     (if c = 10 \<and> d = 10 then 10 # collapseNewlines (dropWhile (\<lambda>x. x = 10) cs)
      else c # collapseNewlines (d # cs))"
  by pat_completeness auto
termination
  by (relation "measure length") (auto intro: le_imp_less_Suc le_SucI length_dropWhile_le)

definition stripStyle :: "jsstring \<Rightarrow> jsstring" where
  "stripStyle s = stripBlocks (js ''<style'') (js ''</style>'') s"

definition stripScript :: "jsstring \<Rightarrow> jsstring" where
  "stripScript s = stripBlocks (js ''<script'') (js ''</script>'') s"

definition decodeEntities :: "jsstring \<Rightarrow> jsstring" where
  "decodeEntities s =
     replaceAll (js ''&gt;'') (js ''>'')
       (replaceAll (js ''&lt;'') (js ''<'')
         (replaceAll (js ''&amp;'') (js ''&'')
           (replaceAll (js ''&nbsp;'') (js '' '') s)))"

definition htmlToText :: "jsstring \<Rightarrow> jsstring" where
  "htmlToText html =
     (let withoutTags = replaceTags (stripScript (stripStyle html));
          decoded = trim (collapseNewlines (decodeEntities withoutTags))
      in decoded)"

section \<open>extractPhoneFR\<close>

text \<open>
  The expression is
  \<^verbatim>\<open>/(?:\+33\s?|\b0)(?:[1-9])(?:[\s.\-]?\d{2}){4}\b/g\<close>.
  Every optional part is followed by a part that cannot start with what the
  optional part accepts (a white space is not \<^verbatim>\<open>[1-9]\<close>, a separator is not a
  digit), so taking the optional code unit whenever it is there is the only
  way to match, and an attempt at one position has at most one result.
\<close>

definition isPhoneSep :: "jschar \<Rightarrow> bool" where
  "isPhoneSep c \<longleftrightarrow> isSpace c \<or> c = 46 \<or> c = 45"

text \<open>
  The first group, \<^verbatim>\<open>\+33\s?\<close> or \<^verbatim>\<open>\b0\<close>; \<open>prev\<close> is the code unit
  before the position. The result is the matched text and the rest.
\<close>

definition matchPrefix :: "jschar option \<Rightarrow> jsstring \<Rightarrow> (jsstring \<times> jsstring) option" where
  "matchPrefix prev s =
     (case s of
        [] \<Rightarrow> None
      | c # r \<Rightarrow>
          if prefix (js ''+33'') s then
            (case drop 3 s of
               [] \<Rightarrow> Some (js ''+33'', [])
             | w # r' \<Rightarrow> if isSpace w then Some (js ''+33'' @ [w], r') else Some (js ''+33'', w # r'))
          else if c = 48 \<and> atWordBoundary prev (Some c) then Some ([c], r)
          else None)"

text \<open>\<^verbatim>\<open>(?:[\s.\-]?\d{2}){n}\<close>.\<close>

fun matchGroups :: "nat \<Rightarrow> jsstring \<Rightarrow> (jsstring \<times> jsstring) option" where
  "matchGroups 0 s = Some ([], s)"
| "matchGroups (Suc n) s =
     (let sep = (case s of [] \<Rightarrow> [] | c # _ \<Rightarrow> if isPhoneSep c then [c] else [])
      in case drop (length sep) s of
           a # b # r \<Rightarrow>
             if isDigit a \<and> isDigit b then
               (case matchGroups n r of
                  None \<Rightarrow> None
                | Some (m, rest) \<Rightarrow> Some (sep @ [a, b] @ m, rest))
             else None
         | _ \<Rightarrow> None)"

text \<open>One attempt of the whole expression at the head of \<open>s\<close>: the matched text.\<close>

definition matchPhoneAt :: "jschar option \<Rightarrow> jsstring \<Rightarrow> jsstring option" where
  "matchPhoneAt prev s =
     (case matchPrefix prev s of
        None \<Rightarrow> None
      | Some (m0, r0) \<Rightarrow>
          (case r0 of
             [] \<Rightarrow> None
           | d # r1 \<Rightarrow>
               if 49 \<le> d \<and> d \<le> 57 then
                 (case matchGroups 4 r1 of
                    None \<Rightarrow> None
                  | Some (m, rest) \<Rightarrow>
                      if atWordBoundary (Some (last (d # m))) (headOpt rest)
                      then Some (m0 @ d # m) else None)
               else None))"

text \<open>
  \<^verbatim>\<open>text.match(regex)\<close> with the flag \<^verbatim>\<open>g\<close>, of which only element 0 is
  used: the match at the leftmost position that has one.
\<close>

fun firstPhoneMatch :: "jschar option \<Rightarrow> jsstring \<Rightarrow> jsstring option" where
  "firstPhoneMatch prev [] = None"
| "firstPhoneMatch prev (c # cs) =
     (case matchPhoneAt prev (c # cs) of
        Some m \<Rightarrow> Some m
      | None \<Rightarrow> firstPhoneMatch (Some c) cs)"

text \<open>
  One attempt of the expression at index \<open>k\<close> of a text, as the search of
  \<^verbatim>\<open>match\<close> makes it at each index in turn.
\<close>

definition matchPhoneAtIndex :: "jsstring \<Rightarrow> nat \<Rightarrow> jsstring option" where
  "matchPhoneAtIndex s k =
     matchPhoneAt (if k = 0 then None else Some (s ! (k - 1))) (drop k s)"

definition normalizePhone :: "jsstring \<Rightarrow> jsstring" where
  "normalizePhone raw =
     (let p = filter (\<lambda>c. \<not> (c = 46 \<or> c = 45 \<or> isSpace c)) raw
      in if prefix (js ''+33'') p then js ''0'' @ drop 3 p else p)"

definition extractPhoneFR :: "jsstring \<Rightarrow> jsstring" where
  "extractPhoneFR text =
     (case firstPhoneMatch None text of
        Some m \<Rightarrow> normalizePhone m
      | None \<Rightarrow> [])"

section \<open>guessFullName\<close>

text \<open>
  \<^verbatim>\<open>/^(-{2,}|cordialement|bien cordialement|sinc\u00E8rement|best regards|regards)$/i\<close>
  tested on a line (the source has the letter U+00E8 itself); without the
  flag \<^verbatim>\<open>m\<close> the anchors are the ends of the line.
\<close>

definition closings :: "jsstring list" where
  "closings =
     [js ''cordialement'', js ''bien cordialement'', js ''sinc'' @ [232] @ js ''rement'',
      js ''best regards'', js ''regards'']"

definition isBoundary :: "jsstring \<Rightarrow> bool" where
  "isBoundary l \<longleftrightarrow>
     (2 \<le> length l \<and> list_all (\<lambda>c. c = 45) l) \<or> list_ex (\<lambda>p. ciEq p l) closings"

text \<open>
  \<^verbatim>\<open>/^[A-Z...][a-z...'\-]+$/\<close> tested on a token: a capital, then one or more
  small letters, apostrophes or hyphens. Besides the ASCII letters the
  first class holds the 15 capitals U+00C0, C2, C4, C9, C8, CA, CB, CF, CE,
  D4, D6, D9, DB, DC, C7 and the second class the small letters U+00E0, E2,
  E4, E9, E8, EA, EB, EF, EE, F4, F6, F9, FB, FC, E7.
\<close>

definition isCapital :: "jschar \<Rightarrow> bool" where
  "isCapital c \<longleftrightarrow>
     (65 \<le> c \<and> c \<le> 90) \<or>
     c \<in> set [192, 194, 196, 201, 200, 202, 203, 207, 206, 212, 214, 217, 219, 220, 199]"

definition isNameTail :: "jschar \<Rightarrow> bool" where
  "isNameTail c \<longleftrightarrow>
     (97 \<le> c \<and> c \<le> 122) \<or>
     c \<in> set [224, 226, 228, 233, 232, 234, 235, 239, 238, 244, 246, 249, 251, 252, 231, 39, 45]"

definition isCapWord :: "jsstring \<Rightarrow> bool" where
  "isCapWord t =
     (case t of [] \<Rightarrow> False | c # r \<Rightarrow> isCapital c \<and> r \<noteq> [] \<and> list_all isNameTail r)"

text \<open>The test in the body of the loop over the candidate lines.\<close>

definition qualifies :: "jsstring \<Rightarrow> bool" where
  "qualifies l =
     (let tokens = tokens l
      in 2 \<le> length tokens \<and> length tokens \<le> 4 \<and>
         (let capScore = length (filter isCapWord tokens) in 2 \<le> capScore))"

text \<open>The loop: the first line that passes the test is returned at once.\<close>

fun firstQualifying :: "jsstring list \<Rightarrow> jsstring option" where
  "firstQualifying [] = None"
| "firstQualifying (l # ls) = (if qualifies l then Some l else firstQualifying ls)"

definition jsLines :: "jsstring \<Rightarrow> jsstring list" where
  "jsLines text = filter (\<lambda>l. l \<noteq> []) (map trim (splitOn 10 text))"

definition candidateLines :: "jsstring list \<Rightarrow> jsstring list" where
  "candidateLines lines =
     (let sigStartIdx = findIndex isBoundary lines
      in if 0 \<le> sigStartIdx \<and> sigStartIdx < int (length lines) - 1
         then slice lines (sigStartIdx + 1) (sigStartIdx + 6)
         else sliceFrom lines (- 6))"

definition guessFullName :: "jsstring \<Rightarrow> jsstring \<Rightarrow> jsstring" where
  "guessFullName text fallbackSender =
     (case firstQualifying (candidateLines (jsLines text)) of
        Some l \<Rightarrow> l
      | None \<Rightarrow> if fallbackSender \<noteq> [] then fallbackSender else [])"

section \<open>The two handlers\<close>

text \<open>The result of \<^verbatim>\<open>getItemBodyText\<close>; \<open>plain\<close> is its field \<^verbatim>\<open>text\<close>.\<close>

record rawBody =
  html :: jsstring
  plain :: jsstring

record sender =
  email :: jsstring
  name :: jsstring

text \<open>The values of the three form fields of the task pane.\<close>

record form =
  fullNameField :: jsstring
  emailField :: jsstring
  phoneField :: jsstring

text \<open>
  \<^verbatim>\<open>getItemBodyText\<close>: the host gives the body as HTML (\<open>Some\<close>) or reports a
  failure (\<open>None\<close>), which rejects the promise. \<open>htmlToText\<close> does not throw
  on a string, so the handler of the inner \<^verbatim>\<open>try\<close> is not reached.
\<close>

definition getItemBodyText :: "jsstring option \<Rightarrow> rawBody option" where
  "getItemBodyText res =
     (case res of
        None \<Rightarrow> None
      | Some v \<Rightarrow> Some \<lparr>html = v, plain = htmlToText v\<rparr>)"

text \<open>\<^verbatim>\<open>setVal\<close> is only called under \<^verbatim>\<open>if (val)\<close>: an empty value leaves the field.\<close>

definition scanAndFill :: "jsstring option \<Rightarrow> sender \<Rightarrow> form \<Rightarrow> form" where
  "scanAndFill res from f =
     (case getItemBodyText res of
        None \<Rightarrow> f
      | Some b \<Rightarrow>
          (let phone = extractPhoneFR (plain b);
               fullName = guessFullName (plain b) (name from);
               f1 = (if fullName \<noteq> [] then f\<lparr>fullNameField := fullName\<rparr> else f);
               f2 = (if email from \<noteq> [] then f1\<lparr>emailField := email from\<rparr> else f1);
               f3 = (if phone \<noteq> [] then f2\<lparr>phoneField := phone\<rparr> else f2)
           in f3))"

record emailAddress =
  address :: jsstring
  addressName :: jsstring

record contact =
  givenName :: jsstring
  surname :: jsstring
  displayName :: jsstring
  emailAddresses :: "emailAddress list"
  businessPhones :: "jsstring list"

text \<open>\<^verbatim>\<open>a || b\<close> on strings: the empty string is the only falsy one.\<close>

definition orElse :: "jsstring \<Rightarrow> jsstring \<Rightarrow> jsstring" where
  "orElse a b = (if a \<noteq> [] then a else b)"

text \<open>
  The object \<^verbatim>\<open>body\<close> of \<^verbatim>\<open>createContactOnGraph\<close> as it is when it is handed
  to \<^verbatim>\<open>JSON.stringify\<close>.
\<close>

definition contactBody :: "jsstring \<Rightarrow> jsstring \<Rightarrow> jsstring \<Rightarrow> contact" where
  "contactBody dName mail phone =
     (let body = \<lparr>givenName = [], surname = [],
                   displayName = orElse dName (orElse mail (js ''Nouveau contact'')),
                   emailAddresses =
                     (if mail \<noteq> [] then [\<lparr>address = mail, addressName = orElse dName mail\<rparr>] else []),
                   businessPhones = (if phone \<noteq> [] then [phone] else [])\<rparr>;
          parts = tokens (orElse dName [])
      in if 2 \<le> length parts
         then body\<lparr>givenName := parts ! 0, surname := joinWith (js '' '') (drop 1 parts)\<rparr>
         else body)"

text \<open>
  \<^verbatim>\<open>createContactOnGraph\<close>: the request is sent by \<open>post\<close>, which stands for
  \<^verbatim>\<open>fetch\<close> on the contacts endpoint and answers with a status and a text
  or with the created contact; a status that is not ok is thrown.
\<close>

datatype error = GraphError nat jsstring

definition createContactOnGraph ::
  "(jsstring \<Rightarrow> contact \<Rightarrow> (nat \<times> jsstring) + contact) \<Rightarrow>
   jsstring \<Rightarrow> jsstring \<Rightarrow> jsstring \<Rightarrow> jsstring \<Rightarrow> error + contact" where
  "createContactOnGraph post token dName mail phone =
     (case post token (contactBody dName mail phone) of
        Inl (status, txt) \<Rightarrow> Inl (GraphError status txt)
      | Inr created \<Rightarrow> Inr created)"

section \<open>The written forms of a French number, after the specification\<close>

text \<open>
  The specification calls valid the forms \<^verbatim>\<open>0X XX XX XX XX\<close> and
  \<^verbatim>\<open>+33 X XX XX XX XX\<close>, the separator before each pair of digits being a
  dot, a space, a hyphen or nothing, and the space after \<^verbatim>\<open>+33\<close> optional.
  A written number is given by its prefix, its first digit \<open>x\<close> and its four
  pairs, each with its separator. Its canonical form is \<^verbatim>\<open>0\<close>, then the
  digits.
\<close>

definition isOptSep :: "jsstring \<Rightarrow> bool" where
  "isOptSep g \<longleftrightarrow> g = [] \<or> g = js ''.'' \<or> g = js '' '' \<or> g = js ''-''"

definition validPair :: "jsstring \<times> jsstring \<Rightarrow> bool" where
  "validPair q = (case q of (g, dd) \<Rightarrow> isOptSep g \<and> length dd = 2 \<and> list_all isDigit dd)"

definition validNumber :: "jsstring \<Rightarrow> jsstring \<Rightarrow> (jsstring \<times> jsstring) list \<Rightarrow> bool" where
  "validNumber pfx x pairs \<longleftrightarrow>
     (pfx = js ''0'' \<or> pfx = js ''+33'' \<or> pfx = js ''+33 '') \<and>
     length x = 1 \<and> list_all (\<lambda>c. 49 \<le> c \<and> c \<le> 57) x \<and>
     length pairs = 4 \<and> list_all validPair pairs"

definition written :: "jsstring \<Rightarrow> jsstring \<Rightarrow> (jsstring \<times> jsstring) list \<Rightarrow> jsstring" where
  "written pfx x pairs = pfx @ x @ concat (map (\<lambda>(g, dd). g @ dd) pairs)"

definition canonical :: "jsstring \<Rightarrow> (jsstring \<times> jsstring) list \<Rightarrow> jsstring" where
  "canonical x pairs = js ''0'' @ x @ concat (map snd pairs)"

section \<open>Occurrences in a text\<close>

text \<open>
  Whether the literal string \<open>pat\<close> occurs in a text, and whether it occurs
  when case is ignored as the flag \<^verbatim>\<open>i\<close> does.
\<close>

fun contains :: "jsstring \<Rightarrow> jsstring \<Rightarrow> bool" where
  "contains pat [] = (pat = [])"
| "contains pat (c # cs) = (prefix pat (c # cs) \<or> contains pat cs)"

fun ciContains :: "jsstring \<Rightarrow> jsstring \<Rightarrow> bool" where
  "ciContains pat [] = (pat = [])"
| "ciContains pat (c # cs) = (ciPrefix pat (c # cs) \<or> ciContains pat cs)"

text \<open>
  Whether \<^verbatim>\<open>/<[^>]+>/\<close> matches somewhere in a text: a \<^verbatim>\<open><\<close>, at least one code
  unit other than \<^verbatim>\<open>>\<close>, and a \<^verbatim>\<open>>\<close> later on.
\<close>

fun hasTag :: "jsstring \<Rightarrow> bool" where
  "hasTag [] = False"
| "hasTag (c # cs) =
     ((c = 60 \<and> takeWhile (\<lambda>x. x \<noteq> 62) cs \<noteq> [] \<and> dropWhile (\<lambda>x. x \<noteq> 62) cs \<noteq> []) \<or>
      hasTag cs)"

text \<open>Whether two line feeds stand side by side somewhere in a text.\<close>

fun doubleNewline :: "jsstring \<Rightarrow> bool" where
  "doubleNewline (c # d # cs) = ((c = 10 \<and> d = 10) \<or> doubleNewline (d # cs))"
| "doubleNewline cs = False"

text \<open>The four entities that \<open>decodeEntities\<close> knows.\<close>

definition entities :: "jsstring list" where
  "entities = [js ''&nbsp;'', js ''&amp;'', js ''&lt;'', js ''&gt;'']"

section \<open>Unfolding the definitions on concrete strings\<close>

lemmas charDefs = js_def isSpace_def isDigit_def isWordChar_def isWordOpt_def atWordBoundary_def
  headOpt_def ciMatch_def ciEq_def isPhoneSep_def isCapital_def isNameTail_def

lemmas htmlDefs = htmlToText_def stripStyle_def stripScript_def decodeEntities_def matchBlock_def
  trim_def

lemmas phoneDefs = extractPhoneFR_def matchPhoneAt_def matchPrefix_def normalizePhone_def

lemmas nameDefs = guessFullName_def jsLines_def candidateLines_def qualifies_def tokens_def
  isCapWord_def isBoundary_def closings_def findIndex_def slice_def sliceFrom_def relIndex_def trim_def

lemma four: "(4::nat) = Suc (Suc (Suc (Suc 0)))"
  by simp

section \<open>Facts used in several places\<close>

lemma digit_kept: "isDigit c \<Longrightarrow> \<not> (c = 46 \<or> c = 45 \<or> isSpace c)"
  by (auto simp: isDigit_def isSpace_def)

lemma firstQualifying_none: "\<forall>l\<in>set ls. \<not> qualifies l \<Longrightarrow> firstQualifying ls = None"
  by (induction ls) simp_all

lemma ciMatch_lt: "ciMatch p 60 \<longleftrightarrow> p = 60"
  by (auto simp: ciMatch_def)

lemma ciPrefix_append: "ciPrefix p s \<Longrightarrow> ciPrefix p (s @ u)"
  by (induction p s rule: ciPrefix.induct) simp_all

lemma ciPrefix_length: "ciPrefix p s \<Longrightarrow> length p \<le> length s"
  by (induction p s rule: ciPrefix.induct) simp_all

lemma findClose_suffix: "findClose cl s = Some r \<Longrightarrow> \<exists>u. s = u @ r"
proof (induction s)
  case Nil
  then show ?case by (simp split: if_splits)
next
  case (Cons c s)
  show ?case
  proof (cases "ciPrefix cl (c # s)")
    case True
    with Cons.prems have "r = drop (length cl) (c # s)" by simp
    then have "c # s = take (length cl) (c # s) @ r" by simp
    then show ?thesis by blast
  next
    case False
    with Cons obtain u where "s = u @ r" by auto
    then have "c # s = (c # u) @ r" by simp
    then show ?thesis by blast
  qed
qed

section \<open>The end-to-end scenario\<close>

text \<open>
  C1. For the body
  \<^verbatim>\<open><p>Bonjour,</p><p>Mon numero: 06.12.34.56.78</p><p>--</p><p>Marie Curie</p>\<close>
  and the sender with email \<^verbatim>\<open>x@y.com\<close> and name \<^verbatim>\<open>Mx\<close>, the scan fills the
  three fields with \<^verbatim>\<open>Marie Curie\<close>, \<^verbatim>\<open>x@y.com\<close> and \<^verbatim>\<open>0612345678\<close>, whatever
  they held before.
\<close>

theorem scan_end_to_end:
  "scanAndFill
     (Some (js ''<p>Bonjour,</p><p>Mon numero: 06.12.34.56.78</p><p>--</p><p>Marie Curie</p>''))
     \<lparr>email = js ''x@y.com'', name = js ''Mx''\<rparr> f
   = \<lparr>fullNameField = js ''Marie Curie'', emailField = js ''x@y.com'',
      phoneField = js ''0612345678''\<rparr>"
proof -
  define body where
    "body = js ''<p>Bonjour,</p><p>Mon numero: 06.12.34.56.78</p><p>--</p><p>Marie Curie</p>''"
  define t where
    "t = js ''Bonjour,'' @ [10] @ js ''Mon numero: 06.12.34.56.78'' @ [10] @ js ''--'' @ [10] @
         js ''Marie Curie''"
  define mx where "mx = js ''Mx''"
  define nm where "nm = js ''Marie Curie''"
  define ph where "ph = js ''0612345678''"
  define em where "em = js ''x@y.com''"
  have conv: "htmlToText body = t"
    unfolding body_def t_def by (simp add: charDefs htmlDefs)
  have phone: "extractPhoneFR t = ph"
    unfolding t_def ph_def by (simp add: charDefs phoneDefs four)
  have nam: "guessFullName t mx = nm"
    unfolding t_def mx_def nm_def by (simp add: charDefs nameDefs)
  have ne: "nm \<noteq> []" "em \<noteq> []" "ph \<noteq> []"
    by (simp_all add: js_def nm_def em_def ph_def)
  have "scanAndFill (Some body) \<lparr>email = em, name = mx\<rparr> f
          = \<lparr>fullNameField = nm, emailField = em, phoneField = ph\<rparr>"
    by (cases f) (simp add: scanAndFill_def getItemBodyText_def conv phone nam ne Let_def)
  then show ?thesis
    by (simp only: body_def mx_def nm_def ph_def em_def)
qed

theorem scan_end_to_end_witness:
  "scanAndFill
     (Some (js ''<p>Bonjour,</p><p>Mon numero: 06.12.34.56.78</p><p>--</p><p>Marie Curie</p>''))
     \<lparr>email = js ''x@y.com'', name = js ''Mx''\<rparr>
     \<lparr>fullNameField = [], emailField = [], phoneField = js ''0102030405''\<rparr>
   = \<lparr>fullNameField = js ''Marie Curie'', emailField = js ''x@y.com'',
      phoneField = js ''0612345678''\<rparr>"
  by (rule scan_end_to_end)

section \<open>Tokens\<close>

text \<open>
  The pieces of \<open>splitSpaces\<close> hold no white space and, put together, are the
  line without its white space; \<open>tokens\<close> keeps the pieces that are not empty.
\<close>

lemma filter_dropWhile_space:
  "filter (\<lambda>c. \<not> isSpace c) (dropWhile isSpace cs) = filter (\<lambda>c. \<not> isSpace c) cs"
  by (induction cs) simp_all

lemma splitSpaces_concat: "concat (splitSpaces l) = filter (\<lambda>c. \<not> isSpace c) l"
proof (induction l rule: splitSpaces.induct)
  case 1
  then show ?case by simp
next
  case (2 c cs)
  show ?case
  proof (cases "isSpace c")
    case True
    with 2(1) show ?thesis by (simp add: filter_dropWhile_space)
  next
    case False
    from 2(2) [OF False] have ih: "concat (splitSpaces cs) = filter (\<lambda>c. \<not> isSpace c) cs" .
    show ?thesis
    proof (cases "splitSpaces cs")
      case Nil
      with ih have "filter (\<lambda>c. \<not> isSpace c) cs = []" by simp
      with False Nil show ?thesis by simp
    next
      case (Cons p ps)
      with ih have "filter (\<lambda>c. \<not> isSpace c) cs = p @ concat ps" by simp
      with False Cons show ?thesis by simp
    qed
  qed
qed

lemma splitSpaces_pieces: "t \<in> set (splitSpaces l) \<Longrightarrow> c \<in> set t \<Longrightarrow> \<not> isSpace c"
proof (induction l arbitrary: t rule: splitSpaces.induct)
  case 1
  then show ?case by simp
next
  case (2 x xs)
  show ?case
  proof (cases "isSpace x")
    case True
    with "2.prems" have tin: "t \<in> set (splitSpaces (dropWhile isSpace xs))" by auto
    from True tin "2.prems"(2) show ?thesis by (rule "2.IH"(1))
  next
    case False
    show ?thesis
    proof (cases "splitSpaces xs")
      case Nil
      with False "2.prems" show ?thesis by simp
    next
      case (Cons p ps)
      with False "2.prems" consider "t = x # p" | "t \<in> set ps" by auto
      then show ?thesis
      proof cases
        case 1
        with "2.prems"(2) have "c = x \<or> c \<in> set p" by simp
        then show ?thesis
        proof
          assume "c = x"
          with False show ?thesis by simp
        next
          assume "c \<in> set p"
          moreover from Cons have "p \<in> set (splitSpaces xs)" by simp
          ultimately show ?thesis using False by (intro "2.IH"(2))
        qed
      next
        case 2
        with Cons have "t \<in> set (splitSpaces xs)" by simp
        with False "2.prems"(2) show ?thesis by (intro "2.IH"(2))
      qed
    qed
  qed
qed

lemma tokens_concat: "concat (tokens l) = filter (\<lambda>c. \<not> isSpace c) l"
proof -
  have "concat (filter (\<lambda>t. t \<noteq> []) xs) = concat xs" for xs :: "jsstring list"
    by (induction xs) simp_all
  then show ?thesis
    by (simp add: tokens_def splitSpaces_concat)
qed

lemma tokens_pieces: "t \<in> set (tokens l) \<Longrightarrow> t \<noteq> [] \<and> (\<forall>c\<in>set t. \<not> isSpace c)"
  by (auto simp: tokens_def dest: splitSpaces_pieces)

section \<open>The contact payload\<close>

lemma orElse_empty [simp]: "orElse d [] = d"
  by (simp add: orElse_def)

text \<open>
  C8. The payload's \<open>givenName\<close> and \<open>surname\<close> come from the tokens of the
  supplied name: with two tokens or more, the first token and the others
  joined by one space; with fewer, both stay empty and a supplied name is
  carried by \<open>displayName\<close> alone.
\<close>

theorem contact_given_surname:
  "(2 \<le> length (tokens d) \<longrightarrow>
      (\<exists>t ts. tokens d = t # ts \<and> givenName (contactBody d m p) = t \<and>
         surname (contactBody d m p) = joinWith (js '' '') ts)) \<and>
   (length (tokens d) < 2 \<longrightarrow>
      givenName (contactBody d m p) = [] \<and> surname (contactBody d m p) = [] \<and>
      (d \<noteq> [] \<longrightarrow> displayName (contactBody d m p) = d))"
proof (intro conjI impI)
  assume two: "2 \<le> length (tokens d)"
  then obtain t ts where ts: "tokens d = t # ts"
    by (cases "tokens d") auto
  with two have "givenName (contactBody d m p) = t"
    and "surname (contactBody d m p) = joinWith (js '' '') ts"
    by (simp_all add: contactBody_def Let_def)
  with ts show "\<exists>t ts. tokens d = t # ts \<and> givenName (contactBody d m p) = t \<and>
      surname (contactBody d m p) = joinWith (js '' '') ts"
    by blast
next
  assume "length (tokens d) < 2"
  then show "givenName (contactBody d m p) = []" and "surname (contactBody d m p) = []"
    by (simp_all add: contactBody_def Let_def)
next
  assume "d \<noteq> []"
  then show "displayName (contactBody d m p) = d"
    by (simp add: contactBody_def Let_def orElse_def)
qed

theorem contact_given_surname_witness:
  "givenName (contactBody (js ''Marie Curie'') [] []) = js ''Marie'' \<and>
   surname (contactBody (js ''Marie Curie'') [] []) = js ''Curie'' \<and>
   givenName (contactBody (js ''Madonna'') [] []) = [] \<and>
   surname (contactBody (js ''Madonna'') [] []) = [] \<and>
   displayName (contactBody (js ''Madonna'') [] []) = js ''Madonna''"
proof -
  have t1: "tokens (js ''Marie Curie'') = [js ''Marie'', js ''Curie'']"
    by (simp add: charDefs tokens_def)
  have t2: "tokens (js ''Madonna'') = [js ''Madonna'']"
    by (simp add: charDefs tokens_def)
  have ne: "js ''Madonna'' \<noteq> []"
    by (simp add: js_def)
  from contact_given_surname [of "js ''Marie Curie''" "[]" "[]"]
    contact_given_surname [of "js ''Madonna''" "[]" "[]"]
  show ?thesis
    by (simp add: t1 t2 ne)
qed

text \<open>
  C9. The payload's \<open>displayName\<close> is never empty: it is the supplied name
  when there is one, otherwise the supplied email when there is one,
  otherwise \<^verbatim>\<open>Nouveau contact\<close>.
\<close>

theorem contact_displayName:
  "displayName (contactBody d m p) \<noteq> [] \<and>
   (d \<noteq> [] \<longrightarrow> displayName (contactBody d m p) = d) \<and>
   (d = [] \<and> m \<noteq> [] \<longrightarrow> displayName (contactBody d m p) = m) \<and>
   (d = [] \<and> m = [] \<longrightarrow> displayName (contactBody d m p) = js ''Nouveau contact'')"
proof -
  have eq: "displayName (contactBody x y p) = orElse x (orElse y (js ''Nouveau contact''))"
    for x y
    by (simp add: contactBody_def Let_def)
  have "js ''Nouveau contact'' \<noteq> []"
    by (simp add: js_def)
  then show ?thesis
    by (simp add: eq orElse_def)
qed

theorem contact_displayName_witness:
  "displayName (contactBody (js ''Marie Curie'') (js ''x@y.com'') []) = js ''Marie Curie'' \<and>
   displayName (contactBody [] (js ''x@y.com'') []) = js ''x@y.com'' \<and>
   displayName (contactBody [] [] []) = js ''Nouveau contact''"
proof -
  have ne: "js ''Marie Curie'' \<noteq> []" "js ''x@y.com'' \<noteq> []"
    by (simp_all add: js_def)
  from contact_displayName [of "js ''Marie Curie''" "js ''x@y.com''" "[]"]
    contact_displayName [of "[]" "js ''x@y.com''" "[]"]
    contact_displayName [of "[]" "[]" "[]"]
  show ?thesis
    by (simp add: ne)
qed

section \<open>The shape of an extracted phone number\<close>

lemma sep_dropped: "isPhoneSep c \<Longrightarrow> c = 46 \<or> c = 45 \<or> isSpace c"
  by (auto simp: isPhoneSep_def)

lemma matchGroups_digits:
  "matchGroups n s = Some (m, rest) \<Longrightarrow>
     length (filter (\<lambda>c. \<not> (c = 46 \<or> c = 45 \<or> isSpace c)) m) = 2 * n \<and>
     list_all isDigit (filter (\<lambda>c. \<not> (c = 46 \<or> c = 45 \<or> isSpace c)) m)"
proof (induction n arbitrary: s m rest)
  case 0
  then show ?case by simp
next
  case (Suc n)
  let ?sep = "case s of [] \<Rightarrow> [] | c # _ \<Rightarrow> if isPhoneSep c then [c] else []"
  from Suc.prems obtain a b r m' where
    rest: "drop (length ?sep) s = a # b # r" and dig: "isDigit a" "isDigit b" and
    rec: "matchGroups n r = Some (m', rest)" and m: "m = ?sep @ [a, b] @ m'"
    by (auto simp: Let_def split: list.splits if_splits option.splits)
  have sep: "filter (\<lambda>c. \<not> (c = 46 \<or> c = 45 \<or> isSpace c)) ?sep = []"
    by (auto split: list.splits dest: sep_dropped)
  from Suc.IH [OF rec] dig show ?case
    unfolding m filter_append sep by (simp add: digit_kept)
qed

lemma matchPrefix_kept:
  "matchPrefix prev s = Some (m0, r0) \<Longrightarrow>
     filter (\<lambda>c. \<not> (c = 46 \<or> c = 45 \<or> isSpace c)) m0 = js ''+33'' \<or>
     filter (\<lambda>c. \<not> (c = 46 \<or> c = 45 \<or> isSpace c)) m0 = js ''0''"
  by (auto simp: matchPrefix_def js_def isSpace_def split: list.splits if_splits)

lemma matchPhoneAt_normal:
  assumes "matchPhoneAt prev s = Some m"
  shows "\<exists>x ds. normalizePhone m = 48 # x # ds \<and> 49 \<le> x \<and> x \<le> 57 \<and> length ds = 8 \<and>
           list_all isDigit ds"
proof -
  let ?keep = "\<lambda>c. \<not> (c = 46 \<or> c = 45 \<or> isSpace c)"
  from assms obtain m0 r0 d r1 g rest where
    pre: "matchPrefix prev s = Some (m0, r0)" and d: "49 \<le> d" "d \<le> 57" and
    grp: "matchGroups 4 r1 = Some (g, rest)" and m: "m = m0 @ d # g"
    by (auto simp: matchPhoneAt_def split: option.splits list.splits if_splits)
  from d have keepd: "?keep d"
    by (auto simp: isSpace_def)
  from matchGroups_digits [OF grp] have g: "length (filter ?keep g) = 8" "list_all isDigit (filter ?keep g)"
    by simp_all
  from matchPrefix_kept [OF pre] show ?thesis
  proof
    assume "filter ?keep m0 = js ''+33''"
    with keepd have "normalizePhone m = 48 # d # filter ?keep g"
      by (simp add: normalizePhone_def m js_def)
    with d g show ?thesis by blast
  next
    assume "filter ?keep m0 = js ''0''"
    with keepd have "normalizePhone m = 48 # d # filter ?keep g"
      by (simp add: normalizePhone_def m js_def)
    with d g show ?thesis by blast
  qed
qed

lemma firstPhoneMatch_at:
  "firstPhoneMatch prev s = Some m \<Longrightarrow> \<exists>prev' s'. matchPhoneAt prev' s' = Some m"
  by (induction s arbitrary: prev) (auto split: option.splits)

text \<open>
  C10. Whenever \<open>extractPhoneFR\<close> returns a non-empty string, the string has
  exactly 10 code units, all of them digits (so no separator and no \<^verbatim>\<open>+\<close>):
  \<^verbatim>\<open>0\<close>, then a digit from 1 to 9, then eight digits.
\<close>

theorem extractPhoneFR_shape:
  assumes "extractPhoneFR t \<noteq> []"
  shows "length (extractPhoneFR t) = 10 \<and> list_all isDigit (extractPhoneFR t) \<and>
         (\<exists>x ds. extractPhoneFR t = 48 # x # ds \<and> 49 \<le> x \<and> x \<le> 57 \<and> length ds = 8)"
proof -
  from assms obtain m where "firstPhoneMatch None t = Some m"
    and "extractPhoneFR t = normalizePhone m"
    by (auto simp: extractPhoneFR_def split: option.splits)
  with firstPhoneMatch_at matchPhoneAt_normal obtain x ds where
    "extractPhoneFR t = 48 # x # ds" "49 \<le> x" "x \<le> 57" "length ds = 8" "list_all isDigit ds"
    by metis
  then show ?thesis
    by (simp add: isDigit_def)
qed

theorem extractPhoneFR_shape_witness:
  "extractPhoneFR (js ''Tel : +33 6-12.34 56 78.'') \<noteq> [] \<and>
   length (extractPhoneFR (js ''Tel : +33 6-12.34 56 78.'')) = 10 \<and>
   list_all isDigit (extractPhoneFR (js ''Tel : +33 6-12.34 56 78.'')) \<and>
   (\<exists>x ds. extractPhoneFR (js ''Tel : +33 6-12.34 56 78.'') = 48 # x # ds \<and> 49 \<le> x \<and> x \<le> 57 \<and>
      length ds = 8)"
proof -
  have "extractPhoneFR (js ''Tel : +33 6-12.34 56 78.'') = js ''0612345678''"
    by (simp add: charDefs phoneDefs four)
  then have ne: "extractPhoneFR (js ''Tel : +33 6-12.34 56 78.'') \<noteq> []"
    by (simp add: js_def)
  with extractPhoneFR_shape [OF ne] show ?thesis
    by simp
qed

section \<open>Valid written numbers are extracted in canonical form\<close>

lemma digit_not_sep: "isDigit c \<Longrightarrow> \<not> isPhoneSep c"
  by (auto simp: isDigit_def isPhoneSep_def isSpace_def)

lemma optSep_cases:
  assumes "isOptSep g"
  obtains "g = []" | c where "g = [c]" "isPhoneSep c"
  using assms by (auto simp: isOptSep_def js_def isPhoneSep_def isSpace_def)

lemma matchGroups_pair:
  assumes "validPair (g, dd)" and "matchGroups n r = Some (m, rest)"
  shows "matchGroups (Suc n) (g @ dd @ r) = Some (g @ dd @ m, rest)"
proof -
  from assms(1) obtain a b where dd: "dd = [a, b]" and dig: "isDigit a" "isDigit b"
    and g: "isOptSep g"
    by (cases dd; cases "tl dd") (auto simp: validPair_def)
  from g show ?thesis
  proof (cases rule: optSep_cases)
    case 1
    with dig(1) have "\<not> isPhoneSep a" by (simp add: digit_not_sep)
    with 1 dd dig assms(2) show ?thesis by simp
  next
    case (2 c)
    with dd dig assms(2) show ?thesis by simp
  qed
qed

lemma matchGroups_written:
  "list_all validPair pairs \<Longrightarrow>
     matchGroups (length pairs) (concat (map (\<lambda>(g, dd). g @ dd) pairs) @ post)
       = Some (concat (map (\<lambda>(g, dd). g @ dd) pairs), post)"
proof (induction pairs)
  case Nil
  then show ?case by simp
next
  case (Cons q pairs)
  obtain g dd where q: "q = (g, dd)" by (cases q)
  from Cons.prems q have v: "validPair (g, dd)" and rest: "list_all validPair pairs"
    by simp_all
  from matchGroups_pair [OF v Cons.IH [OF rest]] q show ?case
    by simp
qed

lemma written_last_digit:
  assumes "list_all validPair pairs" and "pairs \<noteq> []"
  shows "isDigit (last (d # concat (map (\<lambda>(g, dd). g @ dd) pairs)))"
proof -
  from assms(2) obtain ps g dd where pairs: "pairs = ps @ [(g, dd)]"
    by (cases pairs rule: rev_cases) auto
  with assms(1) have "validPair (g, dd)" by simp
  then obtain a b where "dd = [a, b]" "isDigit b"
    by (cases dd; cases "tl dd") (auto simp: validPair_def)
  with pairs show ?thesis by simp
qed

lemma matchPrefix_written:
  assumes "pfx = js ''0'' \<or> pfx = js ''+33'' \<or> pfx = js ''+33 ''"
    and "49 \<le> d" "d \<le> 57"
    and "pfx = js ''0'' \<longrightarrow> \<not> isWordOpt prev"
  shows "matchPrefix prev (pfx @ d # r) = Some (pfx, d # r)"
proof -
  from assms(2,3) have "\<not> isSpace d"
    by (auto simp: isSpace_def)
  with assms(1,4) show ?thesis
    by (auto simp: matchPrefix_def js_def atWordBoundary_def isWordOpt_def isWordChar_def
        isDigit_def isSpace_def)
qed

lemma matchPhoneAt_written:
  assumes valid: "validNumber pfx x pairs"
    and before: "pfx = js ''0'' \<longrightarrow> \<not> isWordOpt prev"
    and after: "\<not> isWordOpt (headOpt post)"
  shows "matchPhoneAt prev (written pfx x pairs @ post) = Some (written pfx x pairs)"
proof -
  let ?m = "concat (map (\<lambda>(g, dd). g @ dd) pairs)"
  from valid obtain d where x: "x = [d]" and d: "49 \<le> d" "d \<le> 57"
    by (cases x) (auto simp: validNumber_def)
  from valid have pfx: "pfx = js ''0'' \<or> pfx = js ''+33'' \<or> pfx = js ''+33 ''"
    and len: "length pairs = 4" and pairs: "list_all validPair pairs"
    by (simp_all add: validNumber_def)
  from len have ne: "pairs \<noteq> []" by auto
  have w: "written pfx x pairs @ post = pfx @ d # (?m @ post)"
    by (simp add: written_def x)
  have p: "matchPrefix prev (pfx @ d # (?m @ post)) = Some (pfx, d # (?m @ post))"
    using pfx d before by (rule matchPrefix_written)
  have g: "matchGroups 4 (?m @ post) = Some (?m, post)"
    using matchGroups_written [OF pairs, of post] len by simp
  from written_last_digit [OF pairs ne, of d] have "isWordChar (last (d # ?m))"
    by (simp add: isWordChar_def)
  with after have b: "atWordBoundary (Some (last (d # ?m))) (headOpt post)"
    by (simp add: atWordBoundary_def isWordOpt_def)
  show ?thesis
    unfolding w matchPhoneAt_def p using d g b by (simp add: written_def x)
qed

lemma normalizePhone_written:
  assumes valid: "validNumber pfx x pairs"
  shows "normalizePhone (written pfx x pairs) = canonical x pairs"
proof -
  let ?keep = "\<lambda>c. \<not> (c = 46 \<or> c = 45 \<or> isSpace c)"
  from valid obtain d where x: "x = [d]" and d: "49 \<le> d" "d \<le> 57"
    by (cases x) (auto simp: validNumber_def)
  from valid have pfx: "pfx = js ''0'' \<or> pfx = js ''+33'' \<or> pfx = js ''+33 ''"
    and pairs: "list_all validPair pairs"
    by (simp_all add: validNumber_def)
  from d have keepd: "?keep d"
    by (auto simp: isSpace_def)
  from pairs have body: "filter ?keep (concat (map (\<lambda>(g, dd). g @ dd) pairs)) = concat (map snd pairs)"
  proof (induction pairs)
    case Nil
    then show ?case by simp
  next
    case (Cons q pairs)
    obtain g dd where q: "q = (g, dd)" by (cases q)
    with Cons.prems have "isOptSep g" and dd: "list_all isDigit dd"
      by (simp_all add: validPair_def)
    then have "filter ?keep g = []"
      by (auto simp: isOptSep_def js_def isSpace_def)
    moreover from dd have "filter ?keep dd = dd"
      by (induction dd) (auto dest: digit_kept)
    ultimately show ?case
      using Cons q by simp
  qed
  from pfx have "filter ?keep pfx = js ''0'' \<or> filter ?keep pfx = js ''+33''"
    by (auto simp: js_def isSpace_def)
  then show ?thesis
    using keepd body by (auto simp: normalizePhone_def written_def canonical_def x js_def)
qed

lemma firstPhoneMatch_skip:
  assumes "\<forall>k<length pre.
             matchPhoneAt (if k = 0 then prev else Some (pre ! (k - 1))) (drop k pre @ s) = None"
  shows "firstPhoneMatch prev (pre @ s)
           = firstPhoneMatch (if pre = [] then prev else Some (last pre)) s"
  using assms
proof (induction pre arbitrary: prev)
  case Nil
  then show ?case by simp
next
  case (Cons c pre)
  from Cons.prems have here: "matchPhoneAt prev (c # pre @ s) = None"
    by (auto dest: spec [of _ 0])
  have "\<forall>k<length pre.
          matchPhoneAt (if k = 0 then Some c else Some (pre ! (k - 1))) (drop k pre @ s) = None"
  proof (intro allI impI)
    fix k assume "k < length pre"
    with Cons.prems [rule_format, of "Suc k"] show
      "matchPhoneAt (if k = 0 then Some c else Some (pre ! (k - 1))) (drop k pre @ s) = None"
      by (cases k) auto
  qed
  from Cons.IH [OF this] here show ?case
    by simp
qed

lemma firstPhoneMatch_found:
  "matchPhoneAt prev s = Some m \<Longrightarrow> firstPhoneMatch prev s = Some m"
  by (cases s) (auto simp: matchPhoneAt_def matchPrefix_def)

text \<open>
  C2, as amended. Let a valid written number stand in a text between \<open>pre\<close>
  and \<open>post\<close>, where no attempt of the expression at an index inside \<open>pre\<close>
  succeeds, \<open>pre\<close> does not end with a word character when the number
  starts with \<^verbatim>\<open>0\<close>, and \<open>post\<close> does not start with a word character. Then
  \<open>extractPhoneFR\<close> returns the canonical form, whatever the separators.
\<close>

theorem extractPhoneFR_valid:
  assumes valid: "validNumber pfx x pairs"
    and first: "\<forall>k<length pre. matchPhoneAtIndex (pre @ written pfx x pairs @ post) k = None"
    and before: "pfx = js ''0'' \<longrightarrow> \<not> isWordOpt (if pre = [] then None else Some (last pre))"
    and after: "\<not> isWordOpt (headOpt post)"
  shows "extractPhoneFR (pre @ written pfx x pairs @ post) = canonical x pairs"
proof -
  let ?n = "written pfx x pairs"
  have "\<forall>k<length pre.
          matchPhoneAt (if k = 0 then None else Some (pre ! (k - 1))) (drop k pre @ ?n @ post) = None"
  proof (intro allI impI)
    fix k assume k: "k < length pre"
    then have "k - 1 < length pre"
      by simp
    then have "(pre @ ?n @ post) ! (k - 1) = pre ! (k - 1)"
      by (simp only: nth_append if_True)
    with first [rule_format, OF k] k show
      "matchPhoneAt (if k = 0 then None else Some (pre ! (k - 1))) (drop k pre @ ?n @ post) = None"
      by (cases "k = 0") (simp_all add: matchPhoneAtIndex_def)
  qed
  then have "firstPhoneMatch None (pre @ ?n @ post)
               = firstPhoneMatch (if pre = [] then None else Some (last pre)) (?n @ post)"
    by (rule firstPhoneMatch_skip)
  also have "\<dots> = Some ?n"
    using matchPhoneAt_written [OF valid before after] by (rule firstPhoneMatch_found)
  finally show ?thesis
    by (simp add: extractPhoneFR_def normalizePhone_written [OF valid])
qed
theorem extractPhoneFR_valid_witness:
  "validNumber (js ''+33 '') (js ''6'')
     [(js ''-'', js ''12''), (js ''.'', js ''34''), (js '' '', js ''56''), ([], js ''78'')] \<and>
   list_all (\<lambda>k. matchPhoneAtIndex (js ''Tel: +33 6-12.34 5678, merci'') k = None)
     [0..<length (js ''Tel: '')] \<and>
   \<not> isWordOpt (headOpt (js '', merci'')) \<and>
   extractPhoneFR (js ''Tel: +33 6-12.34 5678, merci'') = js ''0612345678'' \<and>
   extractPhoneFR (js ''06 12 34 56 78'') = js ''0612345678'' \<and>
   extractPhoneFR (js ''+33612345678'') = js ''0612345678''"
proof -
  have v1: "validNumber (js ''+33 '') (js ''6'')
      [(js ''-'', js ''12''), (js ''.'', js ''34''), (js '' '', js ''56''), ([], js ''78'')]"
    and v2: "validNumber (js ''0'') (js ''6'')
      [(js '' '', js ''12''), (js '' '', js ''34''), (js '' '', js ''56''), (js '' '', js ''78'')]"
    and v3: "validNumber (js ''+33'') (js ''6'')
      [([], js ''12''), ([], js ''34''), ([], js ''56''), ([], js ''78'')]"
    by (simp_all add: validNumber_def validPair_def isOptSep_def charDefs)
  have first: "\<forall>k<length (js ''Tel: '').
      matchPhoneAtIndex (js ''Tel: '' @ written (js ''+33 '') (js ''6'')
        [(js ''-'', js ''12''), (js ''.'', js ''34''), (js '' '', js ''56''), ([], js ''78'')] @
        js '', merci'') k = None"
    by (simp add: All_less_Suc written_def matchPhoneAtIndex_def charDefs phoneDefs)
  have after: "\<not> isWordOpt (headOpt (js '', merci''))" "\<not> isWordOpt (headOpt [])"
    by (simp_all add: charDefs)
  from first have "list_all (\<lambda>k. matchPhoneAtIndex (js ''Tel: '' @ written (js ''+33 '') (js ''6'')
        [(js ''-'', js ''12''), (js ''.'', js ''34''), (js '' '', js ''56''), ([], js ''78'')] @
        js '', merci'') k = None) [0..<length (js ''Tel: '')]"
    by (simp only: list_all_iff set_upt atLeastLessThan_iff) simp
  with extractPhoneFR_valid [OF v1 first _ after(1)]
    extractPhoneFR_valid [OF v2, of "[]" "[]"] extractPhoneFR_valid [OF v3, of "[]" "[]"]
    v1 after
  show ?thesis
    by (simp add: written_def canonical_def js_def isWordOpt_def headOpt_def)
qed

text \<open>
  C2 as stated fails: a text can contain a valid written number and yet
  give another result, when an earlier match wins or when a word character
  stands right before the number.
\<close>

theorem extractPhoneFR_containing_counterexample:
  "validNumber (js ''0'') (js ''6'')
     [(js '' '', js ''12''), (js '' '', js ''34''), (js '' '', js ''56''), (js '' '', js ''78'')] \<and>
   extractPhoneFR (js ''01 02 03 04 05 / '' @ written (js ''0'') (js ''6'')
     [(js '' '', js ''12''), (js '' '', js ''34''), (js '' '', js ''56''), (js '' '', js ''78'')])
     \<noteq> canonical (js ''6'')
     [(js '' '', js ''12''), (js '' '', js ''34''), (js '' '', js ''56''), (js '' '', js ''78'')] \<and>
   extractPhoneFR (js ''ref'' @ written (js ''0'') (js ''6'')
     [(js '' '', js ''12''), (js '' '', js ''34''), (js '' '', js ''56''), (js '' '', js ''78'')])
     \<noteq> canonical (js ''6'')
     [(js '' '', js ''12''), (js '' '', js ''34''), (js '' '', js ''56''), (js '' '', js ''78'')]"
proof -
  have "extractPhoneFR (js ''01 02 03 04 05 / 06 12 34 56 78'') = js ''0102030405''"
    by (simp add: charDefs phoneDefs four)
  moreover have "extractPhoneFR (js ''ref06 12 34 56 78'') = []"
    by (simp add: charDefs phoneDefs four)
  ultimately show ?thesis
    by (simp add: validNumber_def validPair_def isOptSep_def isDigit_def written_def
        canonical_def js_def)
qed

section \<open>The name guesser\<close>

lemma firstQualifying_first:
  "\<exists>l\<in>set ls. qualifies l \<Longrightarrow>
     \<exists>i<length ls. firstQualifying ls = Some (ls ! i) \<and> qualifies (ls ! i) \<and>
       (\<forall>j<i. \<not> qualifies (ls ! j))"
proof (induction ls)
  case Nil
  then show ?case by simp
next
  case (Cons l ls)
  show ?case
  proof (cases "qualifies l")
    case True
    then have "firstQualifying (l # ls) = Some ((l # ls) ! 0) \<and> qualifies ((l # ls) ! 0) \<and>
        (\<forall>j<0. \<not> qualifies ((l # ls) ! j))"
      by simp
    then show ?thesis by blast
  next
    case False
    with Cons.prems have "\<exists>l\<in>set ls. qualifies l" by simp
    from Cons.IH [OF this] obtain i where i: "i < length ls"
      "firstQualifying ls = Some (ls ! i)" "qualifies (ls ! i)" "\<forall>j<i. \<not> qualifies (ls ! j)"
      by blast
    have "\<forall>j<Suc i. \<not> qualifies ((l # ls) ! j)"
    proof (intro allI impI)
      fix j assume "j < Suc i"
      with False i(4) show "\<not> qualifies ((l # ls) ! j)"
        by (cases j) simp_all
    qed
    with False i have "Suc i < length (l # ls) \<and>
        firstQualifying (l # ls) = Some ((l # ls) ! Suc i) \<and> qualifies ((l # ls) ! Suc i) \<and>
        (\<forall>j<Suc i. \<not> qualifies ((l # ls) ! j))"
      by simp
    then show ?thesis by blast
  qed
qed

text \<open>
  C4. If a line of the candidate window qualifies (2 to 4 tokens, at least 2
  of them capitalized words), \<open>guessFullName\<close> returns the first such line of
  the window, as it stands in the window, and no later one.
\<close>

theorem guessFullName_first:
  assumes "\<exists>l\<in>set (candidateLines (jsLines t)). qualifies l"
  shows "\<exists>i<length (candidateLines (jsLines t)).
           guessFullName t fb = candidateLines (jsLines t) ! i \<and>
           qualifies (candidateLines (jsLines t) ! i) \<and>
           (\<forall>j<i. \<not> qualifies (candidateLines (jsLines t) ! j))"
proof -
  from firstQualifying_first [OF assms] obtain i where
    "i < length (candidateLines (jsLines t))"
    "firstQualifying (candidateLines (jsLines t)) = Some (candidateLines (jsLines t) ! i)"
    "qualifies (candidateLines (jsLines t) ! i)"
    "\<forall>j<i. \<not> qualifies (candidateLines (jsLines t) ! j)"
    by blast
  then show ?thesis
    by (auto simp: guessFullName_def)
qed
lemma sample_lines:
  "jsLines (js ''Bonjour'' @ [10] @ js ''Regards,'' @ [10, 10] @ js ''  Service  client'' @ [10] @
            js ''Marie  Curie '' @ [10] @ js ''Jean Dupont'')
     = [js ''Bonjour'', js ''Regards,'', js ''Service  client'', js ''Marie  Curie'',
        js ''Jean Dupont'']"
  by (simp add: charDefs jsLines_def trim_def)

lemma qualifies_samples:
  "\<not> qualifies (js ''Bonjour'')" "\<not> qualifies (js ''Regards,'')"
  "\<not> qualifies (js ''Service  client'')" "qualifies (js ''Marie  Curie'')"
  "qualifies (js ''Jean Dupont'')"
  by (simp_all add: charDefs qualifies_def tokens_def isCapWord_def)

theorem guessFullName_first_witness:
  "(\<exists>l\<in>set (candidateLines (jsLines
       (js ''Bonjour'' @ [10] @ js ''Regards,'' @ [10, 10] @ js ''  Service  client'' @ [10] @
        js ''Marie  Curie '' @ [10] @ js ''Jean Dupont''))). qualifies l) \<and>
   guessFullName
       (js ''Bonjour'' @ [10] @ js ''Regards,'' @ [10, 10] @ js ''  Service  client'' @ [10] @
        js ''Marie  Curie '' @ [10] @ js ''Jean Dupont'') (js ''Mx'')
     = js ''Marie  Curie''"
proof -
  define t where "t = js ''Bonjour'' @ [10] @ js ''Regards,'' @ [10, 10] @
    js ''  Service  client'' @ [10] @ js ''Marie  Curie '' @ [10] @ js ''Jean Dupont''"
  define w where "w = [js ''Bonjour'', js ''Regards,'', js ''Service  client'',
    js ''Marie  Curie'', js ''Jean Dupont'']"
  have lines: "jsLines t = w"
    unfolding t_def w_def by (rule sample_lines)
  have nb: "\<not> isBoundary (js ''Bonjour'')" "\<not> isBoundary (js ''Regards,'')"
    "\<not> isBoundary (js ''Service  client'')" "\<not> isBoundary (js ''Marie  Curie'')"
    "\<not> isBoundary (js ''Jean Dupont'')"
    by (simp_all add: charDefs isBoundary_def closings_def)
  have win: "candidateLines w = w"
    unfolding w_def
    by (simp add: candidateLines_def findIndex_def nb slice_def sliceFrom_def relIndex_def)
  have ex: "\<exists>l\<in>set (candidateLines (jsLines t)). qualifies l"
    by (simp add: lines win) (simp add: w_def qualifies_samples)
  from guessFullName_first [OF ex, of "js ''Mx''"] obtain i where
    i: "i < length w" "guessFullName t (js ''Mx'') = w ! i" "qualifies (w ! i)"
      "\<forall>j<i. \<not> qualifies (w ! j)"
    by (auto simp: lines win)
  have "i = 3"
  proof -
    from i(1) have "i < 5" by (simp add: w_def)
    then consider "i = 0" | "i = 1" | "i = 2" | "i = 3" | "i = 4" by linarith
    then show ?thesis
    proof cases
      case 5
      with i(4) have "\<not> qualifies (w ! 3)" by simp
      then show ?thesis by (simp add: w_def qualifies_samples)
    qed (use i(3) in \<open>simp_all add: w_def qualifies_samples\<close>)
  qed
  with i(2) have "guessFullName t (js ''Mx'') = js ''Marie  Curie''"
    by (simp add: w_def)
  with ex show ?thesis
    unfolding t_def by simp
qed

lemma findIndexFrom_none: "\<forall>x\<in>set xs. \<not> P x \<Longrightarrow> findIndexFrom P i xs = - 1"
  by (induction xs arbitrary: i) simp_all

lemma sliceFrom_last6: "sliceFrom xs (- 6) = drop (length xs - 6) xs"
  by (simp add: sliceFrom_def slice_def relIndex_def nat_diff_distrib' max_def)

text \<open>
  C6. If no line of the text is a signature boundary and no line of the tail
  window (the last 6 non-empty trimmed lines, or all of them when there are
  fewer) qualifies, \<open>guessFullName\<close> returns the fallback as it is; the
  empty string when the fallback is empty.
\<close>

theorem guessFullName_fallback:
  assumes "\<forall>l\<in>set (jsLines t). \<not> isBoundary l"
    and "\<forall>l\<in>set (drop (length (jsLines t) - 6) (jsLines t)). \<not> qualifies l"
  shows "guessFullName t fb = fb"
proof -
  from assms(1) have "findIndex isBoundary (jsLines t) = - 1"
    by (simp add: findIndex_def findIndexFrom_none)
  then have "candidateLines (jsLines t) = drop (length (jsLines t) - 6) (jsLines t)"
    by (simp add: candidateLines_def sliceFrom_last6)
  with assms(2) have "firstQualifying (candidateLines (jsLines t)) = None"
    by (simp add: firstQualifying_none)
  then show ?thesis
    by (simp add: guessFullName_def)
qed

theorem guessFullName_fallback_witness:
  "jsLines (js ''Bonjour'' @ [10] @ js ''Regards,'' @ [10] @ js ''le service client'')
     = [js ''Bonjour'', js ''Regards,'', js ''le service client''] \<and>
   list_all (\<lambda>l. \<not> isBoundary l \<and> \<not> qualifies l)
     [js ''Bonjour'', js ''Regards,'', js ''le service client''] \<and>
   guessFullName (js ''Bonjour'' @ [10] @ js ''Regards,'' @ [10] @ js ''le service client'')
     (js ''Mx'') = js ''Mx'' \<and>
   guessFullName (js ''Bonjour'' @ [10] @ js ''Regards,'' @ [10] @ js ''le service client'') [] = []"
proof -
  define t where "t = js ''Bonjour'' @ [10] @ js ''Regards,'' @ [10] @ js ''le service client''"
  have lines: "jsLines t = [js ''Bonjour'', js ''Regards,'', js ''le service client'']"
    unfolding t_def by (simp add: charDefs jsLines_def trim_def)
  have nb: "\<forall>l\<in>set (jsLines t). \<not> isBoundary l"
    unfolding lines by (simp add: charDefs isBoundary_def closings_def)
  have nq: "\<forall>l\<in>set (drop (length (jsLines t) - 6) (jsLines t)). \<not> qualifies l"
    unfolding lines by (simp add: charDefs qualifies_def tokens_def isCapWord_def)
  from nb nq have "list_all (\<lambda>l. \<not> isBoundary l \<and> \<not> qualifies l)
      [js ''Bonjour'', js ''Regards,'', js ''le service client'']"
    unfolding lines by simp
  with guessFullName_fallback [OF nb nq, of "js ''Mx''"] guessFullName_fallback [OF nb nq, of "[]"]
    lines
  show ?thesis
    unfolding t_def by simp
qed

lemma findIndexFrom_first:
  "\<forall>x\<in>set pre. \<not> P x \<Longrightarrow> P y \<Longrightarrow> findIndexFrom P i (pre @ y # post) = i + int (length pre)"
  by (induction pre arbitrary: i) simp_all

lemma slice_window:
  "slice (pre @ y # rest) (int (length pre) + 1) (int (length pre) + 6) = take 5 rest"
proof -
  have "relIndex (length (pre @ y # rest)) (int (length pre) + 1) = length pre + 1"
    by (simp add: relIndex_def nat_add_distrib)
  moreover have "relIndex (length (pre @ y # rest)) (int (length pre) + 6)
      = min (length pre + 6) (length pre + 1 + length rest)"
    by (simp add: relIndex_def nat_add_distrib)
  moreover have "take (min (length pre + 6) (length pre + 1 + length rest) - (length pre + 1)) rest
      = take 5 rest"
    by (cases "5 \<le> length rest") (simp_all add: min_def)
  ultimately show ?thesis
    by (simp add: slice_def Let_def)
qed

lemma firstQualifying_after:
  "\<forall>l\<in>set mid. \<not> qualifies l \<Longrightarrow> qualifies y \<Longrightarrow> length mid < n \<Longrightarrow>
     firstQualifying (take n (mid @ y # post)) = Some y"
proof (induction mid arbitrary: n)
  case Nil
  then show ?case by (cases n) simp_all
next
  case (Cons l mid)
  then show ?case by (cases n) simp_all
qed

lemma boundary_Cordialement: "isBoundary (js ''Cordialement'')"
  by (simp add: charDefs isBoundary_def closings_def)

lemma qualifies_Jean_Dupont: "qualifies (js ''Jean Dupont'')"
  by (simp add: charDefs qualifies_def tokens_def isCapWord_def)

text \<open>
  C5, as amended. Let the non-empty trimmed lines of the text hold a line
  \<^verbatim>\<open>Cordialement\<close> with no signature boundary before it, then at most four
  lines of which none qualifies, then a line \<^verbatim>\<open>Jean Dupont\<close>. Then
  \<open>guessFullName\<close> returns \<^verbatim>\<open>Jean Dupont\<close>, whatever the fallback.
\<close>

theorem guessFullName_Cordialement:
  assumes lines: "jsLines t = pre @ js ''Cordialement'' # mid @ js ''Jean Dupont'' # post"
    and pre: "\<forall>l\<in>set pre. \<not> isBoundary l"
    and mid: "\<forall>l\<in>set mid. \<not> qualifies l"
    and near: "length mid < 5"
  shows "guessFullName t fb = js ''Jean Dupont''"
proof -
  let ?rest = "mid @ js ''Jean Dupont'' # post"
  have "findIndex isBoundary (jsLines t) = 0 + int (length pre)"
    unfolding findIndex_def lines using pre boundary_Cordialement by (rule findIndexFrom_first)
  then have idx: "findIndex isBoundary (jsLines t) = int (length pre)"
    by simp
  have "int (length pre) < int (length (jsLines t)) - 1"
    by (simp add: lines)
  then have "candidateLines (jsLines t)
      = slice (jsLines t) (int (length pre) + 1) (int (length pre) + 6)"
    by (simp add: candidateLines_def idx Let_def)
  also have "\<dots> = take 5 ?rest"
    unfolding lines by (rule slice_window)
  finally have "candidateLines (jsLines t) = take 5 ?rest" .
  moreover have "firstQualifying (take 5 ?rest) = Some (js ''Jean Dupont'')"
    using mid qualifies_Jean_Dupont near by (rule firstQualifying_after)
  ultimately show ?thesis
    by (simp add: guessFullName_def)
qed

theorem guessFullName_Cordialement_witness:
  "jsLines (js ''Bonjour Madame,'' @ [10, 10] @ js ''Cordialement'' @ [10] @ js '' -- '' @ [10] @
            js ''Jean Dupont'' @ [10] @ js ''Directeur Commercial'')
     = [js ''Bonjour Madame,''] @ js ''Cordialement'' # [js ''--''] @ js ''Jean Dupont'' #
       [js ''Directeur Commercial''] \<and>
   \<not> isBoundary (js ''Bonjour Madame,'') \<and> \<not> qualifies (js ''--'') \<and>
   guessFullName (js ''Bonjour Madame,'' @ [10, 10] @ js ''Cordialement'' @ [10] @ js '' -- '' @
                  [10] @ js ''Jean Dupont'' @ [10] @ js ''Directeur Commercial'') (js ''Mx'')
     = js ''Jean Dupont''"
proof -
  define t where "t = js ''Bonjour Madame,'' @ [10, 10] @ js ''Cordialement'' @ [10] @
    js '' -- '' @ [10] @ js ''Jean Dupont'' @ [10] @ js ''Directeur Commercial''"
  have lines: "jsLines t = [js ''Bonjour Madame,''] @ js ''Cordialement'' # [js ''--''] @
      js ''Jean Dupont'' # [js ''Directeur Commercial'']"
    unfolding t_def by (simp add: charDefs jsLines_def trim_def)
  have pre: "\<forall>l\<in>set [js ''Bonjour Madame,'']. \<not> isBoundary l"
    by (simp add: charDefs isBoundary_def closings_def)
  have mid: "\<forall>l\<in>set [js ''--'']. \<not> qualifies l"
    by (simp add: charDefs qualifies_def tokens_def isCapWord_def)
  have near: "length [js ''--''] < 5"
    by simp
  from guessFullName_Cordialement [OF lines pre mid near, of "js ''Mx''"] lines pre mid
  show ?thesis
    unfolding t_def by simp
qed

text \<open>
  C5 as stated fails: an earlier line that qualifies wins over
  \<^verbatim>\<open>Jean Dupont\<close>, and an earlier boundary line moves the window.
\<close>

theorem guessFullName_Cordialement_counterexample:
  "jsLines (js ''Cordialement'' @ [10] @ js ''Marie Curie'' @ [10] @ js ''Jean Dupont'')
     = [js ''Cordialement'', js ''Marie Curie'', js ''Jean Dupont''] \<and>
   guessFullName (js ''Cordialement'' @ [10] @ js ''Marie Curie'' @ [10] @ js ''Jean Dupont'')
     (js ''Mx'') \<noteq> js ''Jean Dupont'' \<and>
   jsLines (js ''--'' @ [10] @ js ''a'' @ [10] @ js ''b'' @ [10] @ js ''c'' @ [10] @ js ''d'' @
     [10] @ js ''e'' @ [10] @ js ''Cordialement'' @ [10] @ js ''Jean Dupont'')
     = [js ''--'', js ''a'', js ''b'', js ''c'', js ''d'', js ''e'', js ''Cordialement'',
        js ''Jean Dupont''] \<and>
   guessFullName (js ''--'' @ [10] @ js ''a'' @ [10] @ js ''b'' @ [10] @ js ''c'' @ [10] @
     js ''d'' @ [10] @ js ''e'' @ [10] @ js ''Cordialement'' @ [10] @ js ''Jean Dupont'')
     (js ''Mx'') \<noteq> js ''Jean Dupont''"
proof -
  have "guessFullName (js ''Cordialement'' @ [10] @ js ''Marie Curie'' @ [10] @ js ''Jean Dupont'')
      (js ''Mx'') = js ''Marie Curie''"
    by (simp add: charDefs nameDefs)
  moreover have "guessFullName (js ''--'' @ [10] @ js ''a'' @ [10] @ js ''b'' @ [10] @ js ''c'' @
      [10] @ js ''d'' @ [10] @ js ''e'' @ [10] @ js ''Cordialement'' @ [10] @ js ''Jean Dupont'')
      (js ''Mx'') = js ''Mx''"
    by (simp add: charDefs nameDefs)
  moreover have "jsLines (js ''Cordialement'' @ [10] @ js ''Marie Curie'' @ [10] @
      js ''Jean Dupont'') = [js ''Cordialement'', js ''Marie Curie'', js ''Jean Dupont'']"
    by (simp add: charDefs jsLines_def trim_def)
  moreover have "jsLines (js ''--'' @ [10] @ js ''a'' @ [10] @ js ''b'' @ [10] @ js ''c'' @ [10] @
      js ''d'' @ [10] @ js ''e'' @ [10] @ js ''Cordialement'' @ [10] @ js ''Jean Dupont'')
      = [js ''--'', js ''a'', js ''b'', js ''c'', js ''d'', js ''e'', js ''Cordialement'',
         js ''Jean Dupont'']"
    by (simp add: charDefs jsLines_def trim_def)
  ultimately show ?thesis
    by (simp add: js_def)
qed

section \<open>Normalizing a normalized text again\<close>

lemma ciMatch_gt: "ciMatch 62 c \<longleftrightarrow> c = 62"
  by (auto simp: ciMatch_def)

lemma findClose_has_gt:
  assumes "findClose cl s = Some r" and "62 \<in> set cl"
  shows "62 \<in> set s"
proof -
  have pre: "ciPrefix p t \<Longrightarrow> 62 \<in> set p \<Longrightarrow> 62 \<in> set t" for p t
    by (induction p t rule: ciPrefix.induct) (auto simp: ciMatch_gt)
  from assms show ?thesis
  proof (induction s)
    case Nil
    then show ?case by (auto split: if_splits)
  next
    case (Cons c s)
    then show ?case
      by (cases "ciPrefix cl (c # s)") (auto dest: pre)
  qed
qed

text \<open>A match of a block expression starts a tag.\<close>

lemma matchBlock_hasTag:
  assumes m: "matchBlock opn cl s = Some r"
    and opn: "opn = 60 # p # ps" "\<not> ciMatch p 62"
    and cl: "62 \<in> set cl"
  shows "hasTag s"
proof -
  from m have pre: "ciPrefix opn s" and f: "findClose cl (drop (length opn) s) = Some r"
    by (auto simp: matchBlock_def split: if_splits)
  from pre opn obtain x y t where s: "s = x # y # t" and x: "x = 60" and y: "y \<noteq> 62"
    by (cases s; cases "tl s") (auto simp: ciMatch_lt ciMatch_def)
  from findClose_has_gt [OF f cl] have "62 \<in> set (drop (length opn) s)" .
  then have "62 \<in> set (y # t)"
    using s opn(1) by (auto dest: in_set_dropD)
  then have "dropWhile (\<lambda>c. c \<noteq> 62) (y # t) \<noteq> []"
    by (simp only: dropWhile_eq_Nil_conv) blast
  moreover from y have "takeWhile (\<lambda>c. c \<noteq> 62) (y # t) \<noteq> []"
    by simp
  ultimately show ?thesis
    unfolding s x by (simp only: hasTag.simps) simp
qed

lemma stripBlocks_noTag:
  assumes opn: "opn = 60 # p # ps" "\<not> ciMatch p 62" and cl: "62 \<in> set cl"
  shows "\<not> hasTag s \<Longrightarrow> stripBlocks opn cl s = s"
proof (induction s)
  case Nil
  then show ?case by simp
next
  case (Cons c s)
  have "matchBlock opn cl (c # s) = None"
  proof (cases "matchBlock opn cl (c # s)")
    case None
    then show ?thesis .
  next
    case (Some r)
    then have "hasTag (c # s)"
      using opn cl by (rule matchBlock_hasTag)
    with Cons.prems show ?thesis by blast
  qed
  moreover from Cons.prems have "\<not> hasTag s" by simp
  ultimately show ?case
    using Cons.IH opn(1) by simp
qed

lemma stripStyle_noTag: "\<not> hasTag s \<Longrightarrow> stripStyle s = s"
  unfolding stripStyle_def
  by (rule stripBlocks_noTag [where p = 115 and ps = "js ''tyle''"])
    (simp_all add: js_def ciMatch_def)

lemma stripScript_noTag: "\<not> hasTag s \<Longrightarrow> stripScript s = s"
  unfolding stripScript_def
  by (rule stripBlocks_noTag [where p = 115 and ps = "js ''cript''"])
    (simp_all add: js_def ciMatch_def)

lemma replaceTags_noTag: "\<not> hasTag s \<Longrightarrow> replaceTags s = s"
  by (induction s) auto

lemma replaceAll_absent: "\<not> contains pat s \<Longrightarrow> replaceAll pat rep s = s"
  by (induction s) auto

lemma decodeEntities_absent:
  assumes "list_all (\<lambda>e. \<not> contains e s) entities"
  shows "decodeEntities s = s"
  using assms by (simp add: decodeEntities_def entities_def replaceAll_absent)

lemma collapseNewlines_head: "\<exists>r. collapseNewlines (c # cs) = c # r"
  by (cases cs) auto

lemma collapseNewlines_single: "\<not> doubleNewline (collapseNewlines s)"
proof (induction s rule: collapseNewlines.induct)
  case 1
  then show ?case by simp
next
  case (2 c)
  then show ?case by simp
next
  case (3 c d cs)
  show ?case
  proof (cases "c = 10 \<and> d = 10")
    case True
    let ?r = "dropWhile (\<lambda>x. x = 10) cs"
    from True have step: "collapseNewlines (c # d # cs) = 10 # collapseNewlines ?r"
      by simp
    have nd: "\<not> doubleNewline (collapseNewlines ?r)"
      using True by (rule 3(1))
    show ?thesis
    proof (cases ?r)
      case Nil
      show ?thesis
        unfolding step Nil by simp
    next
      case (Cons x xs)
      then have "x \<noteq> 10"
        using hd_dropWhile [of "\<lambda>x. x = 10" cs] by auto
      moreover from collapseNewlines_head [of x xs] obtain r where
        r: "collapseNewlines (x # xs) = x # r" by blast
      moreover from nd have "\<not> doubleNewline (x # r)"
        unfolding Cons r .
      ultimately show ?thesis
        unfolding step Cons r by simp
    qed
  next
    case False
    from collapseNewlines_head [of d cs] obtain r where
      r: "collapseNewlines (d # cs) = d # r" by blast
    with 3(2) False show ?thesis by auto
  qed
qed

lemma collapseNewlines_fixed: "\<not> doubleNewline s \<Longrightarrow> collapseNewlines s = s"
  by (induction s rule: collapseNewlines.induct) auto

lemma doubleNewline_append_left: "doubleNewline a \<Longrightarrow> doubleNewline (a @ b)"
  by (induction a rule: doubleNewline.induct) auto

lemma doubleNewline_append_right: "doubleNewline b \<Longrightarrow> doubleNewline (a @ b)"
proof (induction a)
  case Nil
  then show ?case by simp
next
  case (Cons c a)
  then show ?case by (cases "a @ b") auto
qed

text \<open>\<open>trim\<close> cuts a text at both ends, and cutting twice changes nothing more.\<close>

lemma trim_cut: "\<exists>a b. s = a @ trim s @ b"
proof -
  let ?w = "dropWhile isSpace s"
  have "trim s @ rev (takeWhile isSpace (rev ?w))
      = rev (takeWhile isSpace (rev ?w) @ dropWhile isSpace (rev ?w))"
    by (simp only: trim_def rev_append)
  also have "\<dots> = rev (rev ?w)"
    by (simp only: takeWhile_dropWhile_id)
  finally have "?w = trim s @ rev (takeWhile isSpace (rev ?w))"
    by simp
  then have "s = takeWhile isSpace s @ trim s @ rev (takeWhile isSpace (rev ?w))"
    using takeWhile_dropWhile_id [of isSpace s] by simp
  then show ?thesis by blast
qed

lemma dropWhile_fixed: "xs = [] \<or> \<not> P (hd xs) \<Longrightarrow> dropWhile P xs = xs"
  by (cases xs) auto

lemma dropWhile_head: "dropWhile P xs = [] \<or> \<not> P (hd (dropWhile P xs))"
  using hd_dropWhile [of P xs] by blast

lemma trim_head: "trim s = [] \<or> \<not> isSpace (hd (trim s))"
proof (cases "dropWhile isSpace s")
  case Nil
  show ?thesis
    unfolding trim_def Nil by simp
next
  case (Cons x w)
  then have x: "\<not> isSpace x"
    using hd_dropWhile [of isSpace s] by auto
  have "\<exists>zs. dropWhile isSpace (rev w @ [x]) = zs @ [x]"
  proof (cases "\<exists>y\<in>set (rev w). \<not> isSpace y")
    case True
    then have "dropWhile isSpace (rev w @ [x]) = dropWhile isSpace (rev w) @ [x]"
      by (auto simp: dropWhile_append1)
    then show ?thesis by blast
  next
    case False
    then have "\<And>y. y \<in> set (rev w) \<Longrightarrow> isSpace y"
      by blast
    then have "dropWhile isSpace (rev w @ [x]) = dropWhile isSpace [x]"
      by (rule dropWhile_append2)
    with x show ?thesis by simp
  qed
  then obtain zs where "dropWhile isSpace (rev w @ [x]) = zs @ [x]" by blast
  with Cons have "trim s = x # rev zs"
    by (simp add: trim_def)
  with x show ?thesis by simp
qed

lemma trim_trim: "trim (trim s) = trim s"
proof -
  have front: "dropWhile isSpace (trim s) = trim s"
    using trim_head [of s] by (rule dropWhile_fixed)
  have "rev (trim s) = dropWhile isSpace (rev (dropWhile isSpace s))"
    by (simp add: trim_def)
  then have "dropWhile isSpace (rev (trim s)) = rev (trim s)"
    using dropWhile_head [of isSpace "rev (dropWhile isSpace s)"]
    by (simp add: dropWhile_fixed)
  then have "rev (dropWhile isSpace (rev (trim s))) = trim s"
    by simp
  with front show ?thesis
    by (simp add: trim_def [of "trim s"])
qed

lemma htmlToText_single: "\<not> doubleNewline (htmlToText h)"
proof -
  let ?c = "collapseNewlines (decodeEntities (replaceTags (stripScript (stripStyle h))))"
  from trim_cut [of ?c] obtain a b where c: "?c = a @ trim ?c @ b" by blast
  have "\<not> doubleNewline ?c" by (rule collapseNewlines_single)
  with c have "\<not> doubleNewline (a @ trim ?c @ b)" by simp
  then have "\<not> doubleNewline (trim ?c)"
    using doubleNewline_append_left [of "trim ?c" b] doubleNewline_append_right [of "trim ?c @ b" a]
    by blast
  then show ?thesis
    by (simp add: htmlToText_def)
qed

text \<open>
  C3, as amended. If the normalized text \<open>htmlToText h\<close> holds no tag and none
  of the four entities, normalizing it again changes nothing. Collapsing the
  line feeds is idempotent on every text.
\<close>

theorem htmlToText_again:
  assumes "\<not> hasTag (htmlToText h)"
    and "list_all (\<lambda>e. \<not> contains e (htmlToText h)) entities"
  shows "htmlToText (htmlToText h) = htmlToText h \<and>
         collapseNewlines (collapseNewlines s) = collapseNewlines s"
proof -
  let ?t = "htmlToText h"
  have style: "stripStyle ?t = ?t"
    using assms(1) by (rule stripStyle_noTag)
  have script: "stripScript ?t = ?t"
    using assms(1) by (rule stripScript_noTag)
  have tags: "replaceTags ?t = ?t"
    using assms(1) by (rule replaceTags_noTag)
  have ents: "decodeEntities ?t = ?t"
    using assms(2) by (rule decodeEntities_absent)
  have coll: "collapseNewlines ?t = ?t"
    using htmlToText_single by (rule collapseNewlines_fixed)
  have "trim ?t = ?t"
    by (simp add: htmlToText_def trim_trim)
  then have "htmlToText ?t = ?t"
    by (simp add: htmlToText_def [of ?t] style script tags ents coll)
  moreover have "collapseNewlines (collapseNewlines s) = collapseNewlines s"
    using collapseNewlines_single by (rule collapseNewlines_fixed)
  ultimately show ?thesis by simp
qed
theorem htmlToText_again_witness:
  "htmlToText (js ''<p>Tom &amp; Jerry</p>'') = js ''Tom & Jerry'' \<and>
   \<not> hasTag (htmlToText (js ''<p>Tom &amp; Jerry</p>'')) \<and>
   list_all (\<lambda>e. \<not> contains e (htmlToText (js ''<p>Tom &amp; Jerry</p>''))) entities \<and>
   htmlToText (htmlToText (js ''<p>Tom &amp; Jerry</p>'')) = htmlToText (js ''<p>Tom &amp; Jerry</p>'')"
proof -
  define h where "h = js ''<p>Tom &amp; Jerry</p>''"
  define t where "t = js ''Tom & Jerry''"
  have conv: "htmlToText h = t"
    unfolding h_def t_def by (simp add: charDefs htmlDefs)
  have tag: "\<not> hasTag (htmlToText h)"
    unfolding conv t_def by (simp add: js_def)
  have ent: "list_all (\<lambda>e. \<not> contains e (htmlToText h)) entities"
    unfolding conv t_def by (simp add: js_def entities_def)
  from htmlToText_again [OF tag ent] conv tag ent show ?thesis
    unfolding h_def t_def by simp
qed

text \<open>
  C3 as stated fails: decoding can leave an entity or a tag behind, which a
  second pass decodes or removes; the entity step alone is not idempotent.
\<close>

theorem htmlToText_idempotent_counterexample:
  "htmlToText (htmlToText (js ''&amp;amp;'')) \<noteq> htmlToText (js ''&amp;amp;'') \<and>
   decodeEntities (decodeEntities (js ''&amp;amp;'')) \<noteq> decodeEntities (js ''&amp;amp;'') \<and>
   htmlToText (htmlToText (js ''&lt;b&gt;bold'')) \<noteq> htmlToText (js ''&lt;b&gt;bold'')"
proof -
  have "htmlToText (js ''&amp;amp;'') = js ''&amp;''"
    and "htmlToText (js ''&amp;'') = js ''&''"
    and "decodeEntities (js ''&amp;amp;'') = js ''&amp;''"
    and "decodeEntities (js ''&amp;'') = js ''&''"
    and "htmlToText (js ''&lt;b&gt;bold'') = js ''<b>bold''"
    and "htmlToText (js ''<b>bold'') = js ''bold''"
    by (simp_all add: charDefs htmlDefs)
  then show ?thesis
    by (simp add: js_def)
qed

section \<open>Blocks of style and script\<close>

text \<open>An occurrence of a pattern whose only \<^verbatim>\<open><\<close> is its first character cannot
  run across a \<^verbatim>\<open><\<close> of the text.\<close>

lemma ciPrefix_stop:
  "60 \<notin> set p \<Longrightarrow> ciPrefix p (v @ 60 # rest) \<Longrightarrow> ciPrefix p v"
proof (induction p arbitrary: v)
  case Nil
  then show ?case by simp
next
  case (Cons q p)
  then show ?case
    by (cases v) (auto simp: ciMatch_lt)
qed

lemma ciPrefix_before_lt:
  assumes "60 \<notin> set (tl p)" and "v \<noteq> []" and "ciPrefix p (v @ 60 # rest)"
  shows "ciPrefix p v"
proof (cases p)
  case Nil
  then show ?thesis by simp
next
  case (Cons q p')
  from assms(2) obtain x v' where v: "v = x # v'" by (cases v) auto
  with assms(1,3) Cons have "ciMatch q x" and "ciPrefix p' v'"
    by (auto dest: ciPrefix_stop)
  with Cons v show ?thesis by simp
qed

lemma drop_within: "length p \<le> length s \<Longrightarrow> drop (length p) (s @ u) = drop (length p) s @ u"
  by simp

lemma findClose_through:
  assumes cl: "cl \<noteq> []" "60 \<notin> set (tl cl)"
  shows "findClose cl (q @ 60 # rest)
           = (case findClose cl q of
                Some r \<Rightarrow> Some (r @ 60 # rest)
              | None \<Rightarrow> findClose cl (60 # rest))"
proof (induction q)
  case Nil
  with cl(1) show ?case by simp
next
  case (Cons x q)
  show ?case
  proof (cases "ciPrefix cl (x # q)")
    case True
    then have "ciPrefix cl ((x # q) @ 60 # rest)"
      by (rule ciPrefix_append)
    moreover from True have "length cl \<le> length (x # q)"
      by (rule ciPrefix_length)
    then have "drop (length cl) ((x # q) @ 60 # rest) = drop (length cl) (x # q) @ 60 # rest"
      by (rule drop_within)
    ultimately show ?thesis
      using True by simp
  next
    case False
    have "\<not> ciPrefix cl ((x # q) @ 60 # rest)"
    proof
      assume "ciPrefix cl ((x # q) @ 60 # rest)"
      with cl(2) have "ciPrefix cl (x # q)"
        by (intro ciPrefix_before_lt [of cl "x # q" rest]) simp_all
      with False show False ..
    qed
    with False Cons.IH show ?thesis
      by simp
  qed
qed

lemma findClose_append:
  assumes "findClose cl s = Some r"
  shows "findClose cl (s @ u) = Some (r @ u)"
  using assms
proof (induction s)
  case Nil
  then show ?case by (cases u) (auto split: if_splits)
next
  case (Cons x s)
  show ?case
  proof (cases "ciPrefix cl (x # s)")
    case True
    then have "ciPrefix cl ((x # s) @ u)"
      by (rule ciPrefix_append)
    moreover from True have "length cl \<le> length (x # s)"
      by (rule ciPrefix_length)
    then have "drop (length cl) ((x # s) @ u) = drop (length cl) (x # s) @ u"
      by (rule drop_within)
    ultimately show ?thesis
      using True Cons.prems by simp
  next
    case False
    with Cons.prems have rec: "findClose cl s = Some r" by simp
    from findClose_suffix [OF rec] obtain w where s: "s = w @ r" by blast
    have "\<not> ciPrefix cl ((x # s) @ u)"
    proof
      assume a: "ciPrefix cl ((x # s) @ u)"
      have "length cl \<le> length s"
      proof -
        have "findClose cl t = Some r' \<Longrightarrow> length cl \<le> length t" for t r'
          by (induction t) (auto split: if_splits dest: ciPrefix_length)
        from this [OF rec] show ?thesis .
      qed
      then have "take (length cl) ((x # s) @ u) = take (length cl) (x # s)"
        by (cases "length cl") simp_all
      moreover have "ciPrefix p t \<longleftrightarrow> ciPrefix p (take (length p) t)" for p t
        by (induction p t rule: ciPrefix.induct) simp_all
      ultimately have "ciPrefix cl (x # s)"
        using a by metis
      with False show False ..
    qed
    with False Cons.IH [OF rec] show ?thesis
      by simp
  qed
qed

text \<open>A stretch of text in which no occurrence starts is passed over.\<close>

lemma findClose_skip:
  "(\<And>v. suffix v w \<Longrightarrow> v \<noteq> [] \<Longrightarrow> \<not> ciPrefix cl (v @ u)) \<Longrightarrow>
     findClose cl (w @ u) = findClose cl u"
proof (induction w)
  case Nil
  then show ?case by simp
next
  case (Cons x w)
  have "\<not> ciPrefix cl ((x # w) @ u)"
    by (rule Cons.prems) simp_all
  moreover have "findClose cl (w @ u) = findClose cl u"
  proof (rule Cons.IH)
    fix v assume "suffix v w" and "v \<noteq> []"
    then show "\<not> ciPrefix cl (v @ u)"
      by (intro Cons.prems) (simp_all add: suffix_ConsI)
  qed
  ultimately show ?case by simp
qed

lemma stripBlocks_skip:
  assumes "opn \<noteq> []"
  shows "(\<And>v. suffix v w \<Longrightarrow> v \<noteq> [] \<Longrightarrow> \<not> ciPrefix opn (v @ u)) \<Longrightarrow>
     stripBlocks opn cl (w @ u) = w @ stripBlocks opn cl u"
proof (induction w)
  case Nil
  then show ?case by simp
next
  case (Cons x w)
  have "\<not> ciPrefix opn ((x # w) @ u)"
    by (rule Cons.prems) simp_all
  then have "matchBlock opn cl (x # w @ u) = None"
    by (simp add: matchBlock_def)
  moreover have "stripBlocks opn cl (w @ u) = w @ stripBlocks opn cl u"
  proof (rule Cons.IH)
    fix v assume "suffix v w" and "v \<noteq> []"
    then show "\<not> ciPrefix opn (v @ u)"
      by (intro Cons.prems) (simp_all add: suffix_ConsI)
  qed
  ultimately show ?case
    using assms by simp
qed

text \<open>One attempt in front of a piece of text that starts with \<^verbatim>\<open><\<close>.\<close>

lemma matchBlock_before:
  assumes opn: "60 \<notin> set (tl opn)" and cl: "cl \<noteq> []" "60 \<notin> set (tl cl)"
    and pre: "pre \<noteq> []"
  shows "matchBlock opn cl (pre @ 60 # rest)
           = (if ciPrefix opn pre
              then (case findClose cl (drop (length opn) pre) of
                      Some r \<Rightarrow> Some (r @ 60 # rest)
                    | None \<Rightarrow> findClose cl (60 # rest))
              else None)"
proof (cases "ciPrefix opn pre")
  case True
  then have "ciPrefix opn (pre @ 60 # rest)"
    by (rule ciPrefix_append)
  moreover from True have "length opn \<le> length pre"
    by (rule ciPrefix_length)
  then have "drop (length opn) (pre @ 60 # rest) = drop (length opn) pre @ 60 # rest"
    by (rule drop_within)
  ultimately show ?thesis
    using True by (simp add: matchBlock_def findClose_through [OF cl])
next
  case False
  have "\<not> ciPrefix opn (pre @ 60 # rest)"
  proof
    assume "ciPrefix opn (pre @ 60 # rest)"
    with opn pre have "ciPrefix opn pre"
      by (intro ciPrefix_before_lt [of opn pre rest])
    with False show False ..
  qed
  with False show ?thesis
    by (simp add: matchBlock_def)
qed
lemma findClose_shorter: "findClose cl s = Some r \<Longrightarrow> length r \<le> length s"
  by (auto dest: findClose_suffix)

text \<open>
  A block is a piece \<open>60 # b\<close> of the text that one attempt at its head
  matches whole, and in which no closing tag ends earlier. What such a block
  holds has no influence on the result of \<open>stripBlocks\<close>.
\<close>

lemma stripBlocks_block:
  assumes opn: "opn \<noteq> []" "60 \<notin> set (tl opn)" and cl: "cl \<noteq> []" "60 \<notin> set (tl cl)"
    and b: "matchBlock opn cl (60 # b @ post) = Some post"
      "findClose cl (60 # b @ post) = Some post"
    and b': "matchBlock opn cl (60 # b' @ post) = Some post"
      "findClose cl (60 # b' @ post) = Some post"
  shows "stripBlocks opn cl (pre @ 60 # b @ post) = stripBlocks opn cl (pre @ 60 # b' @ post)"
proof (induction "length pre" arbitrary: pre rule: less_induct)
  case less
  show ?case
  proof (cases pre)
    case Nil
    with opn(1) b(1) b'(1) show ?thesis by simp
  next
    case (Cons x p)
    then have ne: "pre \<noteq> []" by simp
    note m = matchBlock_before [OF opn(2) cl ne]
    let ?q = "drop (length opn) pre"
    consider (no) "\<not> ciPrefix opn pre"
      | (inside) r where "ciPrefix opn pre" "findClose cl ?q = Some r"
      | (through) "ciPrefix opn pre" "findClose cl ?q = None"
      by (cases "findClose cl ?q") auto
    then show ?thesis
    proof cases
      case no
      then have "matchBlock opn cl (pre @ 60 # b @ post) = None"
        and "matchBlock opn cl (pre @ 60 # b' @ post) = None"
        by (simp_all add: m)
      then have "stripBlocks opn cl (pre @ 60 # b @ post) = x # stripBlocks opn cl (p @ 60 # b @ post)"
        and "stripBlocks opn cl (pre @ 60 # b' @ post) = x # stripBlocks opn cl (p @ 60 # b' @ post)"
        using opn(1) Cons by simp_all
      moreover have "stripBlocks opn cl (p @ 60 # b @ post) = stripBlocks opn cl (p @ 60 # b' @ post)"
        using Cons by (intro less) simp
      ultimately show ?thesis by simp
    next
      case inside
      then have "matchBlock opn cl (pre @ 60 # b @ post) = Some (r @ 60 # b @ post)"
        and "matchBlock opn cl (pre @ 60 # b' @ post) = Some (r @ 60 # b' @ post)"
        by (simp_all add: m)
      then have "stripBlocks opn cl (pre @ 60 # b @ post) = stripBlocks opn cl (r @ 60 # b @ post)"
        and "stripBlocks opn cl (pre @ 60 # b' @ post) = stripBlocks opn cl (r @ 60 # b' @ post)"
        using opn(1) Cons by simp_all
      moreover from findClose_shorter [OF inside(2)] opn(1) ne have "length r < length pre"
        by (cases opn; cases pre) auto
      then have "stripBlocks opn cl (r @ 60 # b @ post) = stripBlocks opn cl (r @ 60 # b' @ post)"
        by (rule less)
      ultimately show ?thesis by simp
    next
      case through
      then have "matchBlock opn cl (pre @ 60 # b @ post) = Some post"
        and "matchBlock opn cl (pre @ 60 # b' @ post) = Some post"
        by (simp_all add: m b(2) b'(2) del: findClose.simps)
      then show ?thesis
        using opn(1) Cons by simp
    qed
  qed
qed

text \<open>
  A piece \<open>60 # m\<close> in which no opening text and no closing tag starts is
  either kept as it is, between two parts that do not depend on it, or
  deleted whole with what surrounds it.
\<close>

lemma stripBlocks_inert:
  assumes opn: "opn \<noteq> []" "60 \<notin> set (tl opn)" and cl: "cl \<noteq> []" "60 \<notin> set (tl cl)"
    and m: "\<And>v u. suffix v (60 # m) \<Longrightarrow> v \<noteq> [] \<Longrightarrow> \<not> ciPrefix opn (v @ u)"
      "\<And>v u. suffix v (60 # m) \<Longrightarrow> v \<noteq> [] \<Longrightarrow> \<not> ciPrefix cl (v @ u)"
    and m': "\<And>v u. suffix v (60 # m') \<Longrightarrow> v \<noteq> [] \<Longrightarrow> \<not> ciPrefix opn (v @ u)"
      "\<And>v u. suffix v (60 # m') \<Longrightarrow> v \<noteq> [] \<Longrightarrow> \<not> ciPrefix cl (v @ u)"
  shows "(\<exists>X Y. stripBlocks opn cl (pre @ 60 # m @ post) = X @ 60 # m @ Y \<and>
                 stripBlocks opn cl (pre @ 60 # m' @ post) = X @ 60 # m' @ Y) \<or>
         stripBlocks opn cl (pre @ 60 # m @ post) = stripBlocks opn cl (pre @ 60 # m' @ post)"
proof (induction "length pre" arbitrary: pre rule: less_induct)
  case less
  have fc: "findClose cl (60 # m @ post) = findClose cl post"
    using findClose_skip [of "60 # m" cl post] m(2) by (simp del: findClose.simps)
  have fc': "findClose cl (60 # m' @ post) = findClose cl post"
    using findClose_skip [of "60 # m'" cl post] m'(2) by (simp del: findClose.simps)
  show ?case
  proof (cases pre)
    case Nil
    have "stripBlocks opn cl ((60 # m) @ post) = (60 # m) @ stripBlocks opn cl post"
      using opn(1) m(1) by (rule stripBlocks_skip)
    moreover have "stripBlocks opn cl ((60 # m') @ post) = (60 # m') @ stripBlocks opn cl post"
      using opn(1) m'(1) by (rule stripBlocks_skip)
    ultimately have "stripBlocks opn cl (pre @ 60 # m @ post) = [] @ 60 # m @ stripBlocks opn cl post \<and>
        stripBlocks opn cl (pre @ 60 # m' @ post) = [] @ 60 # m' @ stripBlocks opn cl post"
      using Nil by simp
    then show ?thesis by blast
  next
    case (Cons x p)
    then have ne: "pre \<noteq> []" by simp
    note mb = matchBlock_before [OF opn(2) cl ne]
    let ?q = "drop (length opn) pre"
    consider (inside) r where "ciPrefix opn pre" "findClose cl ?q = Some r"
      | (through) r where "ciPrefix opn pre" "findClose cl ?q = None" "findClose cl post = Some r"
      | (no) "\<not> ciPrefix opn pre \<or> (findClose cl ?q = None \<and> findClose cl post = None)"
      by (cases "findClose cl ?q"; cases "findClose cl post") auto
    then show ?thesis
    proof cases
      case inside
      then have "matchBlock opn cl (pre @ 60 # m @ post) = Some (r @ 60 # m @ post)"
        and "matchBlock opn cl (pre @ 60 # m' @ post) = Some (r @ 60 # m' @ post)"
        by (simp_all add: mb)
      then have "stripBlocks opn cl (pre @ 60 # m @ post) = stripBlocks opn cl (r @ 60 # m @ post)"
        and "stripBlocks opn cl (pre @ 60 # m' @ post) = stripBlocks opn cl (r @ 60 # m' @ post)"
        using opn(1) Cons by simp_all
      moreover from findClose_shorter [OF inside(2)] opn(1) ne have "length r < length pre"
        by (cases opn; cases pre) auto
      then have "(\<exists>X Y. stripBlocks opn cl (r @ 60 # m @ post) = X @ 60 # m @ Y \<and>
                 stripBlocks opn cl (r @ 60 # m' @ post) = X @ 60 # m' @ Y) \<or>
         stripBlocks opn cl (r @ 60 # m @ post) = stripBlocks opn cl (r @ 60 # m' @ post)"
        by (rule less)
      ultimately show ?thesis by simp
    next
      case through
      then have "matchBlock opn cl (pre @ 60 # m @ post) = Some r"
        and "matchBlock opn cl (pre @ 60 # m' @ post) = Some r"
        by (simp_all add: mb fc fc' del: findClose.simps)
      then have "stripBlocks opn cl (pre @ 60 # m @ post) = stripBlocks opn cl (pre @ 60 # m' @ post)"
        using opn(1) Cons by simp
      then show ?thesis ..
    next
      case no
      then have "matchBlock opn cl (pre @ 60 # m @ post) = None"
        and "matchBlock opn cl (pre @ 60 # m' @ post) = None"
        by (auto simp: mb fc fc' simp del: findClose.simps)
      then have eq: "stripBlocks opn cl (pre @ 60 # m @ post) = x # stripBlocks opn cl (p @ 60 # m @ post)"
        "stripBlocks opn cl (pre @ 60 # m' @ post) = x # stripBlocks opn cl (p @ 60 # m' @ post)"
        using opn(1) Cons by simp_all
      have "(\<exists>X Y. stripBlocks opn cl (p @ 60 # m @ post) = X @ 60 # m @ Y \<and>
                 stripBlocks opn cl (p @ 60 # m' @ post) = X @ 60 # m' @ Y) \<or>
         stripBlocks opn cl (p @ 60 # m @ post) = stripBlocks opn cl (p @ 60 # m' @ post)"
        using Cons by (intro less) simp
      then show ?thesis
      proof
        assume "\<exists>X Y. stripBlocks opn cl (p @ 60 # m @ post) = X @ 60 # m @ Y \<and>
                 stripBlocks opn cl (p @ 60 # m' @ post) = X @ 60 # m' @ Y"
        then obtain X Y where "stripBlocks opn cl (p @ 60 # m @ post) = X @ 60 # m @ Y"
          and "stripBlocks opn cl (p @ 60 # m' @ post) = X @ 60 # m' @ Y"
          by blast
        with eq have "stripBlocks opn cl (pre @ 60 # m @ post) = (x # X) @ 60 # m @ Y \<and>
            stripBlocks opn cl (pre @ 60 # m' @ post) = (x # X) @ 60 # m' @ Y"
          by simp
        then show ?thesis by blast
      next
        assume "stripBlocks opn cl (p @ 60 # m @ post) = stripBlocks opn cl (p @ 60 # m' @ post)"
        with eq show ?thesis by simp
      qed
    qed
  qed
qed
lemma ciEq_Nil: "ciEq [] s \<longleftrightarrow> s = []"
  by (simp add: ciEq_def)

lemma ciEq_Cons: "ciEq (p # ps) s \<longleftrightarrow> (\<exists>c cs. s = c # cs \<and> ciMatch p c \<and> ciEq ps cs)"
  by (cases s) (auto simp: ciEq_def)

lemma ciMatch_lt_left: "ciMatch 60 c \<longleftrightarrow> c = 60"
  by (auto simp: ciMatch_def)

lemma ciEq_no_lt: "ciEq p s \<Longrightarrow> 60 \<notin> set p \<Longrightarrow> 60 \<notin> set s"
  by (induction p arbitrary: s) (auto simp: ciEq_Nil ciEq_Cons ciMatch_lt)

lemma ciEq_prefix: "ciEq p s \<Longrightarrow> ciPrefix p (s @ u)"
  by (simp add: ciEq_def ciPrefix_append)

lemma suffix_ciContains: "suffix v s \<Longrightarrow> v \<noteq> [] \<Longrightarrow> ciPrefix p v \<Longrightarrow> ciContains p s"
  by (induction s) (auto simp: suffix_Cons)

text \<open>An occurrence of a pattern that starts with \<^verbatim>\<open><\<close> starts at a \<^verbatim>\<open><\<close>.\<close>

lemma tag_start:
  assumes "suffix v (60 # t)" and "60 \<notin> set t" and "v \<noteq> []" and "ciPrefix (60 # p) (v @ u)"
  shows "v = 60 # t"
proof -
  from assms(3) obtain y v' where v: "v = y # v'" by (cases v) auto
  with assms(4) have y: "y = 60" by (simp add: ciMatch_lt_left)
  from assms(1) have "v = 60 # t \<or> suffix v t" by (simp add: suffix_Cons)
  then show ?thesis
  proof
    assume "suffix v t"
    then have "set v \<subseteq> set t" by (rule set_mono_suffix)
    with v y assms(2) show ?thesis by auto
  qed
qed

lemma body_first_close:
  assumes cl: "cl = 60 # c'" "60 \<notin> set c'" and Z: "ciEq cl Z"
    and body: "\<not> ciContains cl body"
  shows "findClose cl (body @ Z @ post) = Some post"
proof -
  from Z cl(1) obtain c where Zc: "Z = 60 # c"
    by (auto simp: ciEq_Cons ciMatch_lt_left)
  have "findClose cl (body @ Z @ post) = findClose cl (Z @ post)"
  proof (rule findClose_skip)
    fix v assume v: "suffix v body" "v \<noteq> []"
    show "\<not> ciPrefix cl (v @ Z @ post)"
    proof
      assume "ciPrefix cl (v @ Z @ post)"
      then have "ciPrefix cl (v @ 60 # c @ post)" by (simp add: Zc)
      with cl v(2) have "ciPrefix cl v"
        by (intro ciPrefix_before_lt [of cl v "c @ post"]) simp_all
      with v have "ciContains cl body" by (rule suffix_ciContains)
      with body show False ..
    qed
  qed
  also from Z have "ciPrefix cl (Z @ post)" by (rule ciEq_prefix)
  then have "findClose cl (Z @ post) = Some (drop (length cl) (Z @ post))"
    by (simp add: Zc)
  also from Z have "drop (length cl) (Z @ post) = post"
    by (simp add: ciEq_def)
  finally show ?thesis .
qed

text \<open>
  A block: an opening text, contents without a closing tag, and a closing
  tag. The opening text and the closing tag differ at their second
  character, so no closing tag starts in the opening text.
\<close>

lemma block_matched:
  assumes opn: "opn = 60 # a # o'" "60 \<notin> set (a # o')"
    and cl: "cl = 60 # k # c'" "60 \<notin> set (k # c')"
    and ak: "\<And>x. ciMatch a x \<Longrightarrow> \<not> ciMatch k x"
    and A: "ciEq opn A" and Z: "ciEq cl Z" and body: "\<not> ciContains cl body"
  shows "\<exists>b. A @ body @ Z = 60 # b \<and> matchBlock opn cl (60 # b @ post) = Some post \<and>
           findClose cl (60 # b @ post) = Some post"
proof -
  from A opn obtain x A' where Ax: "A = 60 # x # A'" and x: "ciMatch a x"
    and tail: "ciEq (a # o') (x # A')"
    by (auto simp: ciEq_Cons ciMatch_lt_left)
  from tail opn(2) have no: "60 \<notin> set (x # A')" by (rule ciEq_no_lt)
  have first: "findClose cl (body @ Z @ post) = Some post"
    using cl(1) _ Z body by (rule body_first_close) (use cl(2) in simp)
  have "findClose cl (A @ body @ Z @ post) = findClose cl (body @ Z @ post)"
  proof (rule findClose_skip)
    fix v assume v: "suffix v A" "v \<noteq> []"
    show "\<not> ciPrefix cl (v @ body @ Z @ post)"
    proof
      assume p: "ciPrefix cl (v @ body @ Z @ post)"
      with v no have "v = 60 # x # A'"
        unfolding Ax cl(1) by (intro tag_start)
      with p have "ciMatch k x" by (simp add: cl(1))
      with ak [OF x] show False ..
    qed
  qed
  with first have close: "findClose cl (A @ body @ Z @ post) = Some post" by simp
  from A have "ciPrefix opn (A @ body @ Z @ post)" by (rule ciEq_prefix)
  moreover from A have "drop (length opn) (A @ body @ Z @ post) = body @ Z @ post"
    by (simp add: ciEq_def)
  ultimately have "matchBlock opn cl (A @ body @ Z @ post) = Some post"
    using first by (simp add: matchBlock_def)
  with close have "A @ body @ Z = 60 # (x # A' @ body @ Z) \<and>
      matchBlock opn cl (60 # (x # A' @ body @ Z) @ post) = Some post \<and>
      findClose cl (60 # (x # A' @ body @ Z) @ post) = Some post"
    by (simp add: Ax del: findClose.simps)
  then show ?thesis by blast
qed

lemma letter_not_slash: "ciMatch 115 x \<Longrightarrow> \<not> ciMatch 47 x"
  by (auto simp: ciMatch_def)

text \<open>The contents of a block have no influence on the result of one step.\<close>

lemma stripBlocks_contents:
  assumes opn: "opn = 60 # 115 # o'" "60 \<notin> set o'"
    and cl: "cl = 60 # 47 # c'" "60 \<notin> set c'"
    and A: "ciEq opn A" and Z: "ciEq cl Z"
    and body: "\<not> ciContains cl body" "\<not> ciContains cl body'"
  shows "stripBlocks opn cl (pre @ A @ body @ Z @ post)
           = stripBlocks opn cl (pre @ A @ body' @ Z @ post)"
proof -
  from opn have o1: "opn \<noteq> []" "60 \<notin> set (tl opn)" and o2: "60 \<notin> set (115 # o')"
    by simp_all
  from cl have c1: "cl \<noteq> []" "60 \<notin> set (tl cl)" and c2: "60 \<notin> set (47 # c')"
    by simp_all
  from block_matched [OF opn(1) o2 cl(1) c2 letter_not_slash A Z body(1), of post]
  obtain b where b: "A @ body @ Z = 60 # b" "matchBlock opn cl (60 # b @ post) = Some post"
    "findClose cl (60 # b @ post) = Some post"
    by blast
  from block_matched [OF opn(1) o2 cl(1) c2 letter_not_slash A Z body(2), of post]
  obtain b' where b': "A @ body' @ Z = 60 # b'" "matchBlock opn cl (60 # b' @ post) = Some post"
    "findClose cl (60 # b' @ post) = Some post"
    by blast
  have e: "pre @ A @ body @ Z @ post = pre @ 60 # b @ post"
    using b(1) by (metis append.assoc append_Cons)
  have e': "pre @ A @ body' @ Z @ post = pre @ 60 # b' @ post"
    using b'(1) by (metis append.assoc append_Cons)
  show ?thesis
    unfolding e e' using o1 c1 b(2,3) b'(2,3) by (rule stripBlocks_block)
qed
lemma letter_c_not_t: "ciMatch 99 x \<Longrightarrow> \<not> ciMatch 116 x"
  by (auto simp: ciMatch_def)

lemma ciMatch_letter_not_lt: "ciMatch p x \<Longrightarrow> p \<noteq> 60 \<Longrightarrow> x \<noteq> 60"
  by (auto simp: ciMatch_lt)

text \<open>
  In a script block whose contents hold no \<^verbatim>\<open><style\<close> and no \<^verbatim>\<open></style>\<close>,
  neither of the two starts anywhere, whatever follows the block.
\<close>

lemma script_block_inert:
  assumes A: "ciEq (js ''<script'') A" and Z: "ciEq (js ''</script>'') Z"
    and P: "P = js ''<style'' \<or> P = js ''</style>''"
    and body: "\<not> ciContains P body"
    and v: "suffix v (A @ body @ Z)" "v \<noteq> []"
  shows "\<not> ciPrefix P (v @ u)"
proof
  assume p: "ciPrefix P (v @ u)"
  from P obtain P' where P': "P = 60 # P'" "60 \<notin> set P'"
    by (auto simp: js_def)
  from A obtain a2 a3 a4 a5 a6 a7 where A7: "A = [60, a2, a3, a4, a5, a6, a7]"
    and a: "ciMatch 115 a2" "ciMatch 99 a3"
    and a': "ciMatch 114 a4" "ciMatch 105 a5" "ciMatch 112 a6" "ciMatch 116 a7"
    by (auto simp: js_def ciEq_Cons ciEq_Nil ciMatch_lt_left)
  define A' where "A' = [a4, a5, a6, a7]"
  from A7 have Ax: "A = 60 # a2 # a3 # A'"
    by (simp add: A'_def)
  from a a' have Ano: "60 \<notin> set (a2 # a3 # A')"
    by (auto simp: A'_def ciMatch_lt)
  from Z obtain z2 z3 z4 z5 z6 z7 z8 z9 where Z9: "Z = [60, z2, z3, z4, z5, z6, z7, z8, z9]"
    and z: "ciMatch 47 z2" "ciMatch 115 z3" "ciMatch 99 z4"
    and z': "ciMatch 114 z5" "ciMatch 105 z6" "ciMatch 112 z7" "ciMatch 116 z8" "ciMatch 62 z9"
    by (auto simp: js_def ciEq_Cons ciEq_Nil ciMatch_lt_left)
  define Z' where "Z' = [z5, z6, z7, z8, z9]"
  from Z9 have Zx: "Z = 60 # z2 # z3 # z4 # Z'"
    by (simp add: Z'_def)
  from z z' have Zno: "60 \<notin> set (z2 # z3 # z4 # Z')"
    by (auto simp: Z'_def ciMatch_lt)
  have "suffix v Z \<or> (\<exists>w. suffix w body \<and> w \<noteq> [] \<and> v = w @ Z) \<or>
      (\<exists>w. suffix w A \<and> w \<noteq> [] \<and> v = w @ body @ Z)"
  proof -
    from v(1) consider "suffix v Z" | w where "suffix w body" "v = w @ Z"
      | w where "suffix w A" "v = w @ body @ Z"
      by (auto simp: suffix_append)
    then show ?thesis
    proof cases
      case 1
      then show ?thesis by simp
    next
      case (2 w)
      then show ?thesis by (cases "w = []") auto
    next
      case (3 w)
      show ?thesis
      proof (cases "w = []")
        case True
        with 3 have "v = body @ Z" by simp
        then show ?thesis by (cases "body = []") auto
      next
        case False
        with 3 show ?thesis by auto
      qed
    qed
  qed
  then consider (inZ) "suffix v Z"
    | (inBody) w where "suffix w body" "w \<noteq> []" "v = w @ Z"
    | (inA) w where "suffix w A" "w \<noteq> []" "v = w @ body @ Z"
    by blast
  then show False
  proof cases
    case inZ
    with Zno v(2) p have "v = 60 # z2 # z3 # z4 # Z'"
      unfolding Zx P'(1) by (intro tag_start)
    with p have "ciPrefix P (60 # z2 # z3 # z4 # Z' @ u)" by simp
    with P have "ciMatch 115 z2 \<or> ciMatch 116 z4"
      by (auto simp: js_def)
    with z show False
      by (auto dest: letter_not_slash letter_c_not_t)
  next
    case inBody
    from p have "ciPrefix P (w @ 60 # (z2 # z3 # z4 # Z' @ u))"
      by (simp add: inBody(3) Zx)
    with P'(2) inBody(2) have "ciPrefix P w"
      by (intro ciPrefix_before_lt [of P w "z2 # z3 # z4 # Z' @ u"]) (simp_all add: P'(1))
    with inBody(1,2) have "ciContains P body" by (rule suffix_ciContains)
    with body show False ..
  next
    case inA
    from p have "ciPrefix (60 # P') (w @ body @ Z @ u)"
      by (simp add: inA(3) P'(1))
    with inA(1,2) Ano have "w = 60 # a2 # a3 # A'"
      unfolding Ax by (intro tag_start)
    with p have "ciPrefix P (60 # a2 # a3 # A' @ body @ Z @ u)"
      by (simp add: inA(3))
    with P have "ciMatch 116 a3 \<or> ciMatch 47 a2"
      by (auto simp: js_def)
    with a show False
      by (auto dest: letter_not_slash letter_c_not_t)
  qed
qed

lemma stripStyle_contents:
  assumes "ciEq (js ''<style'') A" and "ciEq (js ''</style>'') Z"
    and "\<not> ciContains (js ''</style>'') body" and "\<not> ciContains (js ''</style>'') body'"
  shows "stripStyle (pre @ A @ body @ Z @ post) = stripStyle (pre @ A @ body' @ Z @ post)"
  unfolding stripStyle_def
  by (rule stripBlocks_contents [where o' = "js ''tyle''" and c' = "js ''style>''", OF _ _ _ _ assms])
    (simp_all add: js_def)

lemma stripScript_contents:
  assumes "ciEq (js ''<script'') A" and "ciEq (js ''</script>'') Z"
    and "\<not> ciContains (js ''</script>'') body" and "\<not> ciContains (js ''</script>'') body'"
  shows "stripScript (pre @ A @ body @ Z @ post) = stripScript (pre @ A @ body' @ Z @ post)"
  unfolding stripScript_def
  by (rule stripBlocks_contents [where o' = "js ''cript''" and c' = "js ''script>''", OF _ _ _ _ assms])
    (simp_all add: js_def)

lemma script_after_style:
  assumes A: "ciEq (js ''<script'') A" and Z: "ciEq (js ''</script>'') Z"
    and body: "\<not> ciContains (js ''</script>'') body" "\<not> ciContains (js ''<style'') body"
      "\<not> ciContains (js ''</style>'') body"
    and body': "\<not> ciContains (js ''</script>'') body'" "\<not> ciContains (js ''<style'') body'"
      "\<not> ciContains (js ''</style>'') body'"
  shows "stripScript (stripStyle (pre @ A @ body @ Z @ post))
           = stripScript (stripStyle (pre @ A @ body' @ Z @ post))"
proof -
  from A obtain m where m: "A @ body @ Z = 60 # m"
    by (auto simp: js_def ciEq_Cons ciMatch_lt_left)
  from A obtain m' where m': "A @ body' @ Z = 60 # m'"
    by (auto simp: js_def ciEq_Cons ciMatch_lt_left)
  have e: "pre @ A @ body @ Z @ post = pre @ 60 # m @ post"
    using m by (metis append.assoc append_Cons)
  have e': "pre @ A @ body' @ Z @ post = pre @ 60 # m' @ post"
    using m' by (metis append.assoc append_Cons)
  have pat: "js ''<style'' \<noteq> []" "60 \<notin> set (tl (js ''<style''))"
    "js ''</style>'' \<noteq> []" "60 \<notin> set (tl (js ''</style>''))"
    by (simp_all add: js_def)
  have i1: "\<not> ciPrefix (js ''<style'') (v @ u)" if "suffix v (60 # m)" "v \<noteq> []" for v u
    using A Z _ body(2) that unfolding m [symmetric] by (rule script_block_inert) simp
  have i2: "\<not> ciPrefix (js ''</style>'') (v @ u)" if "suffix v (60 # m)" "v \<noteq> []" for v u
    using A Z _ body(3) that unfolding m [symmetric] by (rule script_block_inert) simp
  have i1': "\<not> ciPrefix (js ''<style'') (v @ u)" if "suffix v (60 # m')" "v \<noteq> []" for v u
    using A Z _ body'(2) that unfolding m' [symmetric] by (rule script_block_inert) simp
  have i2': "\<not> ciPrefix (js ''</style>'') (v @ u)" if "suffix v (60 # m')" "v \<noteq> []" for v u
    using A Z _ body'(3) that unfolding m' [symmetric] by (rule script_block_inert) simp
  have "(\<exists>X Y. stripStyle (pre @ 60 # m @ post) = X @ 60 # m @ Y \<and>
                stripStyle (pre @ 60 # m' @ post) = X @ 60 # m' @ Y) \<or>
        stripStyle (pre @ 60 # m @ post) = stripStyle (pre @ 60 # m' @ post)"
    unfolding stripStyle_def using pat
  proof (rule stripBlocks_inert)
    fix v u :: jsstring
    assume "suffix v (60 # m)" and "v \<noteq> []"
    then show "\<not> ciPrefix (js ''<style'') (v @ u)" and "\<not> ciPrefix (js ''</style>'') (v @ u)"
      by (rule i1, rule i2)
  next
    fix v u :: jsstring
    assume "suffix v (60 # m')" and "v \<noteq> []"
    then show "\<not> ciPrefix (js ''<style'') (v @ u)" and "\<not> ciPrefix (js ''</style>'') (v @ u)"
      by (rule i1', rule i2')
  qed
  then show ?thesis
  proof
    assume "\<exists>X Y. stripStyle (pre @ 60 # m @ post) = X @ 60 # m @ Y \<and>
                stripStyle (pre @ 60 # m' @ post) = X @ 60 # m' @ Y"
    then obtain X Y where s: "stripStyle (pre @ 60 # m @ post) = X @ 60 # m @ Y"
      "stripStyle (pre @ 60 # m' @ post) = X @ 60 # m' @ Y"
      by blast
    have f: "X @ 60 # m @ Y = X @ A @ body @ Z @ Y"
      using m by (metis append.assoc append_Cons)
    have f': "X @ 60 # m' @ Y = X @ A @ body' @ Z @ Y"
      using m' by (metis append.assoc append_Cons)
    show ?thesis
      unfolding e e' s f f' using A Z body(1) body'(1) by (rule stripScript_contents)
  next
    assume "stripStyle (pre @ 60 # m @ post) = stripStyle (pre @ 60 # m' @ post)"
    then show ?thesis
      unfolding e e' by simp
  qed
qed

text \<open>
  C7, as amended. Take a style block in the input: a text equal to
  \<^verbatim>\<open><style\<close> up to case, contents without \<^verbatim>\<open></style>\<close>, and a closing tag
  \<^verbatim>\<open></style>\<close>. Or take a script block, likewise, whose contents moreover
  hold neither \<^verbatim>\<open><style\<close> nor \<^verbatim>\<open></style>\<close>. Then the output of \<open>htmlToText\<close> is
  the same whatever the contents are: nothing of them reaches it.
\<close>

theorem htmlToText_block_contents:
  assumes "(ciEq (js ''<style'') A \<and> ciEq (js ''</style>'') Z \<and>
            list_all (\<lambda>b. \<not> ciContains (js ''</style>'') b) [body, body']) \<or>
           (ciEq (js ''<script'') A \<and> ciEq (js ''</script>'') Z \<and>
            list_all (\<lambda>b. \<not> ciContains (js ''</script>'') b \<and> \<not> ciContains (js ''<style'') b \<and>
                          \<not> ciContains (js ''</style>'') b) [body, body'])"
  shows "htmlToText (pre @ A @ body @ Z @ post) = htmlToText (pre @ A @ body' @ Z @ post)"
proof -
  have "stripScript (stripStyle (pre @ A @ body @ Z @ post))
          = stripScript (stripStyle (pre @ A @ body' @ Z @ post))"
    using assms
  proof
    assume "ciEq (js ''<style'') A \<and> ciEq (js ''</style>'') Z \<and>
            list_all (\<lambda>b. \<not> ciContains (js ''</style>'') b) [body, body']"
    then have "stripStyle (pre @ A @ body @ Z @ post) = stripStyle (pre @ A @ body' @ Z @ post)"
      by (intro stripStyle_contents) simp_all
    then show ?thesis by simp
  next
    assume "ciEq (js ''<script'') A \<and> ciEq (js ''</script>'') Z \<and>
            list_all (\<lambda>b. \<not> ciContains (js ''</script>'') b \<and> \<not> ciContains (js ''<style'') b \<and>
                          \<not> ciContains (js ''</style>'') b) [body, body']"
    then show ?thesis
      by (intro script_after_style) simp_all
  qed
  then show ?thesis
    by (simp add: htmlToText_def)
qed
theorem htmlToText_block_contents_witness:
  "ciEq (js ''<style'') (js ''<STYLE'') \<and> ciEq (js ''</style>'') (js ''</Style>'') \<and>
   list_all (\<lambda>b. \<not> ciContains (js ''</style>'') b) [js '' type=x>p{color:red}'', js ''>''] \<and>
   htmlToText (js ''<p>Hi</p>'' @ js ''<STYLE'' @ js '' type=x>p{color:red}'' @ js ''</Style>'' @
               js ''<p>Bye</p>'')
     = htmlToText (js ''<p>Hi</p>'' @ js ''<STYLE'' @ js ''>'' @ js ''</Style>'' @ js ''<p>Bye</p>'') \<and>
   htmlToText (js ''<p>Hi</p>'' @ js ''<STYLE'' @ js '' type=x>p{color:red}'' @ js ''</Style>'' @
               js ''<p>Bye</p>'')
     = js ''Hi'' @ [10] @ js ''Bye'' \<and>
   ciEq (js ''<script'') (js ''<script'') \<and> ciEq (js ''</script>'') (js ''</SCRIPT>'') \<and>
   list_all (\<lambda>b. \<not> ciContains (js ''</script>'') b \<and> \<not> ciContains (js ''<style'') b \<and>
                 \<not> ciContains (js ''</style>'') b) [js ''>alert(1 < 2)'', js '' src=x>''] \<and>
   htmlToText (js ''Hi'' @ js ''<script'' @ js ''>alert(1 < 2)'' @ js ''</SCRIPT>'' @ js ''<br>Bye'')
     = htmlToText (js ''Hi'' @ js ''<script'' @ js '' src=x>'' @ js ''</SCRIPT>'' @ js ''<br>Bye'') \<and>
   htmlToText (js ''Hi'' @ js ''<script'' @ js ''>alert(1 < 2)'' @ js ''</SCRIPT>'' @ js ''<br>Bye'')
     = js ''Hi'' @ [10] @ js ''Bye''"
proof -
  have s1: "ciEq (js ''<style'') (js ''<STYLE'')" "ciEq (js ''</style>'') (js ''</Style>'')"
    "list_all (\<lambda>b. \<not> ciContains (js ''</style>'') b) [js '' type=x>p{color:red}'', js ''>'']"
    by (simp_all add: charDefs)
  have s2: "ciEq (js ''<script'') (js ''<script'')" "ciEq (js ''</script>'') (js ''</SCRIPT>'')"
    "list_all (\<lambda>b. \<not> ciContains (js ''</script>'') b \<and> \<not> ciContains (js ''<style'') b \<and>
                 \<not> ciContains (js ''</style>'') b) [js ''>alert(1 < 2)'', js '' src=x>'']"
    by (simp_all add: charDefs)
  have v1: "htmlToText (js ''<p>Hi</p>'' @ js ''<STYLE'' @ js ''>'' @ js ''</Style>'' @
      js ''<p>Bye</p>'') = js ''Hi'' @ [10] @ js ''Bye''"
    by (simp add: charDefs htmlDefs)
  have v2: "htmlToText (js ''Hi'' @ js ''<script'' @ js '' src=x>'' @ js ''</SCRIPT>'' @
      js ''<br>Bye'') = js ''Hi'' @ [10] @ js ''Bye''"
    by (simp add: charDefs htmlDefs)
  have e1: "htmlToText (js ''<p>Hi</p>'' @ js ''<STYLE'' @ js '' type=x>p{color:red}'' @
      js ''</Style>'' @ js ''<p>Bye</p>'')
    = htmlToText (js ''<p>Hi</p>'' @ js ''<STYLE'' @ js ''>'' @ js ''</Style>'' @ js ''<p>Bye</p>'')"
    using s1 by (intro htmlToText_block_contents disjI1 conjI)
  have e2: "htmlToText (js ''Hi'' @ js ''<script'' @ js ''>alert(1 < 2)'' @ js ''</SCRIPT>'' @
      js ''<br>Bye'')
    = htmlToText (js ''Hi'' @ js ''<script'' @ js '' src=x>'' @ js ''</SCRIPT>'' @ js ''<br>Bye'')"
    using s2 by (intro htmlToText_block_contents disjI2 conjI)
  from s1 s2 e1 e2 show ?thesis
    unfolding e1 e2 v1 v2 by (intro conjI) simp_all
qed

text \<open>
  C7 as stated fails. The script block below holds \<^verbatim>\<open>if(w<style){go()}\<close>; the
  first step deletes from that \<^verbatim>\<open><style\<close> to the \<^verbatim>\<open></style>\<close> at the end, the
  script block has lost its closing tag, and the start of its contents is
  the output. With empty contents the output is \<^verbatim>\<open>Hi\<close>.
\<close>

theorem htmlToText_script_counterexample:
  "htmlToText (js ''<script'' @ js ''>if(w<style){go()}'' @ js ''</script>'' @
               js ''<b>Hi</b><style>p{}</style>'') = js ''if(w'' \<and>
   htmlToText (js ''<script'' @ js ''>'' @ js ''</script>'' @
               js ''<b>Hi</b><style>p{}</style>'') = js ''Hi''"
  by (simp add: charDefs htmlDefs)

end
